theory Spec2Isabelle
  imports Main "HOL-Library.Word" "HOL-Library.Multiset" "HOL-Library.Sublist"
begin

section \<open>TaskFlow: the task model, the query pipeline and the task mutations of app.js\<close>

text \<open>
  A JavaScript string is a sequence of UTF-16 code units. Timestamps are stored by the
  program as ISO strings made by \<^verbatim>\<open>toISOString\<close> and read back by \<^verbatim>\<open>new Date\<close>; the two
  are inverse at millisecond precision, so a timestamp is modelled by the instant itself, in
  milliseconds since the epoch, and \<^verbatim>\<open>null\<close> by \<open>None\<close>. The \<^verbatim>\<open>order\<close> field
  holds \<^verbatim>\<open>Date.now()\<close> values, seed indices, imported numbers and maxima plus one. It
  is a JavaScript number, a double: the model holds its integer values, and rounds the one
  sum that the program computes on them (\<open>roundToDouble\<close>, below).
\<close>

type_synonym jschar = "16 word"
type_synonym jsstring = "jschar list"

definition js :: "string \<Rightarrow> jsstring" where
  "js s = map of_char s"

subsection \<open>Local wall-clock time\<close>

text \<open>
  The environment holds what the program reads from its platform: the clock
  (\<^verbatim>\<open>new Date()\<close>), the time zone, the two locale-dependent string operations
  \<^verbatim>\<open>toLowerCase\<close> and \<^verbatim>\<open>localeCompare\<close>, and the number of arguments that one call
  can take.

  The time zone is the function \<^verbatim>\<open>LocalTZA(t, isUTC)\<close> of the language definition: the
  offset of local time from UTC in milliseconds, at the instant \<open>t\<close> when \<open>isUTC\<close> holds and
  at the local time \<open>t\<close> otherwise. Where the offset changes (daylight saving), a local time
  that the clocks skip or show twice takes the offset from before the change. The
  conversions \<open>localTime\<close> and \<open>toUTC\<close> are \<^verbatim>\<open>LocalTime\<close> and \<^verbatim>\<open>UTC\<close> of the language
  definition; every getter and setter of \<^verbatim>\<open>Date\<close> that the program calls goes through them.

  Instants stay inside the range of \<^verbatim>\<open>Date\<close> and after the year 99: the constructor reads
  a year from 0 to 99 as 1900 plus that year, and \<^verbatim>\<open>toISOString\<close> raises outside the
  range.
\<close>

record clock =
  now :: int
  localTZA :: "int \<Rightarrow> bool \<Rightarrow> int"

record env = clock +
  toLowerCase :: "jsstring \<Rightarrow> jsstring"
  localeCompare :: "jsstring \<Rightarrow> jsstring \<Rightarrow> int"
  maxArguments :: nat

definition msPerDay :: int where
  "msPerDay = 86400000"

definition localTime :: "'a clock_scheme \<Rightarrow> int \<Rightarrow> int" where
  "localTime e t = t + localTZA e t True"

definition toUTC :: "'a clock_scheme \<Rightarrow> int \<Rightarrow> int" where
  "toUTC e t = t - localTZA e t False"


text \<open>The local calendar day of an instant (\<^verbatim>\<open>getFullYear\<close>, \<^verbatim>\<open>getMonth\<close> and \<^verbatim>\<open>getDate\<close>
  together), as a number of days, and its local time of day in milliseconds.\<close>

definition localDay :: "'a clock_scheme \<Rightarrow> int \<Rightarrow> int" where
  "localDay e t = localTime e t div msPerDay"


text \<open>\<^verbatim>\<open>new Date(d.getFullYear(), d.getMonth(), d.getDate(), h, m)\<close>: the local calendar day
  of \<open>d\<close> at \<open>h:m:00.000\<close>, converted to an instant; hours and minutes out of range carry
  over.\<close>

definition localDate :: "'a clock_scheme \<Rightarrow> int \<Rightarrow> int \<Rightarrow> int \<Rightarrow> int" where
  "localDate e d h m = toUTC e (localDay e d * msPerDay + h * 3600000 + m * 60000)"

text \<open>\<^verbatim>\<open>x = new Date(d); x.setDate(d.getDate() + n)\<close>: the local time of \<open>d\<close>, \<open>n\<close> calendar
  days later, converted to an instant.\<close>

definition addDays :: "'a clock_scheme \<Rightarrow> int \<Rightarrow> int \<Rightarrow> int" where
  "addDays e d n = toUTC e (localTime e d + n * msPerDay)"

text \<open>\<^verbatim>\<open>d.setHours(h, m, 0, 0)\<close>: the local calendar day of \<open>d\<close> at \<open>h:m:00.000\<close>, converted
  to an instant.\<close>

definition setHours :: "'a clock_scheme \<Rightarrow> int \<Rightarrow> int \<Rightarrow> int \<Rightarrow> int" where
  "setHours e d h m = toUTC e (localDay e d * msPerDay + h * 3600000 + m * 60000)"

subsection \<open>Numbers\<close>

text \<open>
  The value of an integer as a double. A double has 53 significant bits: the doubles of
  magnitude from \<open>2 ^ 53\<close> on are the multiples of a power of two, their spacing, which
  doubles with the magnitude. An integer between two of them goes to the nearer one, and
  a tie to the one whose significand is even. The integers of the model stay far below
  the largest double.
\<close>

function spacing :: "int \<Rightarrow> int" where
  "spacing a = (if a < 2 ^ 53 then 1 else 2 * spacing (a div 2))"
  by pat_completeness auto
termination
  by (relation "measure nat") auto

definition roundToDouble :: "int \<Rightarrow> int" where
  "roundToDouble n =
     (let a = \<bar>n\<bar>;
          q = spacing a;
          lo = (a div q) * q;
          r = a mod q;
          up = (if q < 2 * r \<or> (q = 2 * r \<and> odd (a div q)) then lo + q else lo)
      in sgn n * up)"

text \<open>A call with more arguments than the platform takes raises \<^verbatim>\<open>RangeError\<close>.\<close>

datatype error = RangeError

subsection \<open>Task model\<close>

record subtask =
  sub_id :: jsstring
  sub_title :: jsstring
  sub_done :: bool

record task =
  task_id :: jsstring
  title :: jsstring
  description :: jsstring
  createdAt :: int
  updatedAt :: int
  dueAt :: "int option"
  completedAt :: "int option"
  priority :: jsstring
  tags :: "jsstring list"
  subtasks :: "subtask list"
  order :: int
  starred :: bool
  reminderAt :: "int option"
  metadata :: "(jsstring \<times> jsstring) list"

text \<open>The argument of \<^verbatim>\<open>createTask\<close>: an object any of whose properties may be missing.\<close>

record task_data =
  d_id :: "jsstring option"
  d_title :: "jsstring option"
  d_description :: "jsstring option"
  d_createdAt :: "int option"
  d_dueAt :: "int option"
  d_completedAt :: "int option"
  d_priority :: "jsstring option"
  d_tags :: "jsstring list option"
  d_subtasks :: "subtask list option"
  d_order :: "int option"
  d_starred :: "bool option"
  d_reminderAt :: "int option"
  d_metadata :: "(jsstring \<times> jsstring) list option"

text \<open>\<^verbatim>\<open>x || dflt\<close> on an optional string: a missing or empty string gives the default.\<close>

definition str_or :: "jsstring option \<Rightarrow> jsstring \<Rightarrow> jsstring" where
  "str_or x dflt = (case x of None \<Rightarrow> dflt | Some s \<Rightarrow> if s = [] then dflt else s)"

text \<open>\<open>fresh\<close> stands for the identifier generated from the clock and \<^verbatim>\<open>Math.random\<close>.\<close>

definition createTask :: "env \<Rightarrow> jsstring \<Rightarrow> task_data \<Rightarrow> task" where
  "createTask e fresh d =
     \<lparr> task_id = str_or (d_id d) fresh,
       title = str_or (d_title d) [],
       description = str_or (d_description d) [],
       createdAt = (case d_createdAt d of None \<Rightarrow> now e | Some c \<Rightarrow> c),
       updatedAt = now e,
       dueAt = d_dueAt d,
       completedAt = d_completedAt d,
       priority = str_or (d_priority d) (js ''medium''),
       tags = (case d_tags d of None \<Rightarrow> [] | Some ts \<Rightarrow> ts),
       subtasks = (case d_subtasks d of None \<Rightarrow> [] | Some ss \<Rightarrow> ss),
       order = (case d_order d of None \<Rightarrow> now e | Some k \<Rightarrow> k),
       starred = (case d_starred d of None \<Rightarrow> False | Some b \<Rightarrow> b),
       reminderAt = d_reminderAt d,
       metadata = (case d_metadata d of None \<Rightarrow> [] | Some m \<Rightarrow> m) \<rparr>"

subsection \<open>Application state\<close>

text \<open>
  The fields of \<^verbatim>\<open>state\<close> that the query pipeline and the task mutations read or
  write, and the task list persisted by \<^verbatim>\<open>Storage.saveTasks\<close> under the key
  \<^verbatim>\<open>tf_tasks\<close>. Rendering and toasts do not touch them.
\<close>

record state =
  tasks :: "task list"
  currentView :: jsstring
  searchQuery :: jsstring
  sortBy :: jsstring
  filterPriorities :: "jsstring list"
  filterDue :: jsstring
  filterTag :: "jsstring option"
  tf_tasks :: "task list"

subsection \<open>Filter and sort\<close>

text \<open>\<^verbatim>\<open>s.includes(q)\<close>\<close>

fun str_includes :: "'a list \<Rightarrow> 'a list \<Rightarrow> bool" where
  "str_includes [] q = (q = [])"
| "str_includes (c # cs) q = (take (length q) (c # cs) = q \<or> str_includes cs q)"

text \<open>
  \<^verbatim>\<open>Array.prototype.sort\<close> with a comparison function: the language requires a
  stable sort, and it reads only the sign of the comparison. It is modelled by the stable
  insertion sort: an element is put before the first later element that does not
  compare below it.
\<close>

fun insertBy :: "('a \<Rightarrow> 'a \<Rightarrow> int) \<Rightarrow> 'a \<Rightarrow> 'a list \<Rightarrow> 'a list" where
  "insertBy cmp a [] = [a]"
| "insertBy cmp a (b # bs) = (if cmp a b \<le> 0 then a # b # bs else b # insertBy cmp a bs)"

definition js_sort :: "('a \<Rightarrow> 'a \<Rightarrow> int) \<Rightarrow> 'a list \<Rightarrow> 'a list" where
  "js_sort cmp xs = foldr (insertBy cmp) xs []"

text \<open>The table \<^verbatim>\<open>{ high: 0, medium: 1, low: 2 }\<close>; any other key is \<^verbatim>\<open>undefined\<close>.\<close>

definition priorityRank :: "jsstring \<Rightarrow> int option" where
  "priorityRank p =
     (if p = js ''high'' then Some 0
      else if p = js ''medium'' then Some 1
      else if p = js ''low'' then Some 2
      else None)"

text \<open>The comparison function passed to \<^verbatim>\<open>sort\<close>. A difference with an
  \<^verbatim>\<open>undefined\<close> operand is \<^verbatim>\<open>NaN\<close>, which \<^verbatim>\<open>sort\<close> reads as 0.\<close>

definition compareTasks :: "env \<Rightarrow> jsstring \<Rightarrow> task \<Rightarrow> task \<Rightarrow> int" where
  "compareTasks e sortKey a b =
     (if sortKey = js ''dueDate'' then
        (case (dueAt a, dueAt b) of
           (None, None) \<Rightarrow> 0
         | (None, Some y) \<Rightarrow> 1
         | (Some x, None) \<Rightarrow> - 1
         | (Some x, Some y) \<Rightarrow> x - y)
      else if sortKey = js ''priority'' then
        (case (priorityRank (priority a), priorityRank (priority b)) of
           (Some x, Some y) \<Rightarrow> x - y
         | _ \<Rightarrow> 0)
      else if sortKey = js ''created'' then createdAt b - createdAt a
      else if sortKey = js ''alpha'' then localeCompare e (title a) (title b)
      else order a - order b)"

definition todayStart :: "env \<Rightarrow> int" where
  "todayStart e = localDate e (now e) 0 0"

definition todayEnd :: "env \<Rightarrow> int" where
  "todayEnd e = addDays e (todayStart e) 1"

definition weekEnd :: "env \<Rightarrow> int" where
  "weekEnd e = addDays e (todayStart e) 7"

definition dueWithin :: "int \<Rightarrow> int \<Rightarrow> task \<Rightarrow> bool" where
  "dueWithin lo hi t = (case dueAt t of None \<Rightarrow> False | Some d \<Rightarrow> lo \<le> d \<and> d < hi)"

definition viewFilter :: "env \<Rightarrow> jsstring \<Rightarrow> task list \<Rightarrow> task list" where
  "viewFilter e view ts =
     (if view = js ''today'' then
        filter (\<lambda>t. completedAt t = None \<and> dueWithin (todayStart e) (todayEnd e) t) ts
      else if view = js ''upcoming'' then
        filter (\<lambda>t. completedAt t = None \<and> dueWithin (todayEnd e) (weekEnd e) t) ts
      else if view = js ''all'' then filter (\<lambda>t. completedAt t = None) ts
      else if view = js ''starred'' then filter (\<lambda>t. starred t \<and> completedAt t = None) ts
      else if view = js ''completed'' then filter (\<lambda>t. completedAt t \<noteq> None) ts
      else ts)"

definition tagFilter :: "jsstring option \<Rightarrow> task list \<Rightarrow> task list" where
  "tagFilter ft ts =
     (case ft of
        None \<Rightarrow> ts
      | Some g \<Rightarrow> if g = [] then ts else filter (\<lambda>t. g \<in> set (tags t)) ts)"

definition priorityFilter :: "jsstring list \<Rightarrow> task list \<Rightarrow> task list" where
  "priorityFilter ps ts =
     (if length ps > 0 then filter (\<lambda>t. priority t \<in> set ps) ts else ts)"

definition dueFilter :: "env \<Rightarrow> jsstring \<Rightarrow> task list \<Rightarrow> task list" where
  "dueFilter e fd ts =
     (if fd = js ''today'' then filter (dueWithin (todayStart e) (todayEnd e)) ts
      else if fd = js ''week'' then filter (dueWithin (todayStart e) (weekEnd e)) ts
      else if fd = js ''overdue'' then
        filter (\<lambda>t. (case dueAt t of None \<Rightarrow> False | Some d \<Rightarrow> d < now e) \<and> completedAt t = None) ts
      else ts)"

definition searchFilter :: "env \<Rightarrow> jsstring \<Rightarrow> task list \<Rightarrow> task list" where
  "searchFilter e sq ts =
     (if sq = [] then ts
      else
        (let q = toLowerCase e sq
         in filter (\<lambda>t. str_includes (toLowerCase e (title t)) q
                      \<or> str_includes (toLowerCase e (description t)) q
                      \<or> list_ex (\<lambda>tag. str_includes (toLowerCase e tag) q) (tags t)) ts))"

definition getFilteredTasks :: "env \<Rightarrow> state \<Rightarrow> task list" where
  "getFilteredTasks e s =
     js_sort (compareTasks e (sortBy s))
       (searchFilter e (searchQuery s)
         (dueFilter e (filterDue s)
           (priorityFilter (filterPriorities s)
             (tagFilter (filterTag s)
               (viewFilter e (currentView s) (tasks s))))))"

subsection \<open>Task mutations\<close>

text \<open>\<^verbatim>\<open>state.tasks.length ? Math.max(...state.tasks.map(t => t.order)) + 1 : 0\<close>: the
  orders are spread into the arguments of one call, and the sum is a double.\<close>

definition nextOrder :: "env \<Rightarrow> task list \<Rightarrow> error + int" where
  "nextOrder e ts =
     (if length ts = 0 then Inr 0
      else if maxArguments e < length ts then Inl RangeError
      else Inr (roundToDouble (fold max (tl (map order ts)) (hd (map order ts)) + 1)))"

text \<open>\<^verbatim>\<open>addTask\<close> returns the new task; the model returns it with the new state. The
  order is computed before the task is made, so an error leaves the state as it was.\<close>

definition addTask :: "env \<Rightarrow> jsstring \<Rightarrow> task_data \<Rightarrow> state \<Rightarrow> error + task \<times> state" where
  "addTask e fresh d s =
     (case nextOrder e (tasks s) of
        Inl err \<Rightarrow> Inl err
      | Inr k \<Rightarrow>
          (let t = createTask e fresh (d\<lparr>d_order := Some k\<rparr>);
               ts = t # tasks s
           in Inr (t, s\<lparr>tasks := ts, tf_tasks := ts\<rparr>)))"

text \<open>\<^verbatim>\<open>state.tasks.find(t => t.id === id)\<close>, as the position of the task found: the
  assignments below go to that object of the array.\<close>

fun findIndex :: "jsstring \<Rightarrow> task list \<Rightarrow> nat option" where
  "findIndex i [] = None"
| "findIndex i (t # ts) =
     (if task_id t = i then Some 0 else map_option Suc (findIndex i ts))"

definition reorderTasks :: "env \<Rightarrow> jsstring \<Rightarrow> jsstring \<Rightarrow> state \<Rightarrow> state" where
  "reorderTasks e srcId destId s =
     (case (findIndex srcId (tasks s), findIndex destId (tasks s)) of
        (Some i, Some j) \<Rightarrow>
          (let ts0 = tasks s;
               tmp = order (ts0 ! i);
               ts1 = ts0[i := (ts0 ! i)\<lparr>order := order (ts0 ! j)\<rparr>];
               ts2 = ts1[j := (ts1 ! j)\<lparr>order := tmp\<rparr>];
               ts3 = ts2[j := (ts2 ! j)\<lparr>updatedAt := now e\<rparr>];
               ts4 = ts3[i := (ts3 ! i)\<lparr>updatedAt := now e\<rparr>]
           in s\<lparr>tasks := ts4, tf_tasks := ts4\<rparr>)
      | _ \<Rightarrow> s)"

subsection \<open>Regular expressions of the parser\<close>

text \<open>
  The character classes of the parser's regular expressions, none of which has the
  \<^verbatim>\<open>u\<close> flag: \<^verbatim>\<open>\w\<close> is \<^verbatim>\<open>[A-Za-z0-9_]\<close>, \<^verbatim>\<open>\d\<close> is \<^verbatim>\<open>[0-9]\<close>, and \<^verbatim>\<open>\s\<close> is the white
  space and line terminator code units of the language, which are also what
  \<^verbatim>\<open>trim\<close> removes.
\<close>

definition isWordChar :: "jschar \<Rightarrow> bool" where
  "isWordChar c = ((0x30 \<le> c \<and> c \<le> 0x39) \<or> (0x41 \<le> c \<and> c \<le> 0x5A) \<or> c = 0x5F
                   \<or> (0x61 \<le> c \<and> c \<le> 0x7A))"

definition isDigit :: "jschar \<Rightarrow> bool" where
  "isDigit c = (0x30 \<le> c \<and> c \<le> 0x39)"

definition isSpace :: "jschar \<Rightarrow> bool" where
  "isSpace c = ((0x09 \<le> c \<and> c \<le> 0x0D) \<or> c = 0x20 \<or> c = 0xA0 \<or> c = 0x1680
                \<or> (0x2000 \<le> c \<and> c \<le> 0x200A) \<or> c = 0x2028 \<or> c = 0x2029 \<or> c = 0x202F
                \<or> c = 0x205F \<or> c = 0x3000 \<or> c = 0xFEFF)"

text \<open>
  Case-insensitive matching compares canonical forms. Every pattern character of the
  parser is ASCII, and without the \<^verbatim>\<open>u\<close> flag a code unit from 128 on never
  canonicalises to an ASCII one, so only the ASCII letters need their upper case here.
\<close>

definition canonicalize :: "jschar \<Rightarrow> jschar" where
  "canonicalize c = (if 0x61 \<le> c \<and> c \<le> 0x7A then c - 0x20 else c)"

fun startsWithCI :: "jsstring \<Rightarrow> jsstring \<Rightarrow> bool" where
  "startsWithCI [] s = True"
| "startsWithCI (p # ps) [] = False"
| "startsWithCI (p # ps) (c # cs) = (canonicalize p = canonicalize c \<and> startsWithCI ps cs)"

text \<open>The assertion \<^verbatim>\<open>\b\<close> between two neighbouring positions, either of which may
  be outside the string.\<close>

definition isWordOpt :: "jschar option \<Rightarrow> bool" where
  "isWordOpt x = (case x of None \<Rightarrow> False | Some c \<Rightarrow> isWordChar c)"

definition wordBoundary :: "jschar option \<Rightarrow> jschar option \<Rightarrow> bool" where
  "wordBoundary a b = (isWordOpt a \<noteq> isWordOpt b)"

definition nextChar :: "jsstring \<Rightarrow> jschar option" where
  "nextChar s = (case s of [] \<Rightarrow> None | c # _ \<Rightarrow> Some c)"

text \<open>
  A matcher is a regular expression tried at one position: given the code unit before
  the position (for \<^verbatim>\<open>\b\<close>) and the rest of the string, it yields the length of the
  match and its capture groups.
\<close>

type_synonym 'c matcher = "jschar option \<Rightarrow> jsstring \<Rightarrow> (nat \<times> 'c) option"

text \<open>\<^verbatim>\<open>/!high/i\<close>, \<^verbatim>\<open>/!low/i\<close>: a literal.\<close>

definition reLiteral :: "jsstring \<Rightarrow> unit matcher" where
  "reLiteral lit prev s = (if startsWithCI lit s then Some (length lit, ()) else None)"

definition reHigh :: "unit matcher" where
  "reHigh = reLiteral (js ''!high'')"

definition reLow :: "unit matcher" where
  "reLow = reLiteral (js ''!low'')"

text \<open>\<^verbatim>\<open>/!med(ium)?/i\<close>: the optional group is greedy.\<close>

definition reMed :: "unit matcher" where
  "reMed prev s =
     (if startsWithCI (js ''!med'') s
      then (if startsWithCI (js ''ium'') (drop 4 s) then Some (7, ()) else Some (4, ()))
      else None)"

text \<open>\<^verbatim>\<open>/#(\w+)/\<close>: the capture is the longest run of word characters.\<close>

definition reTag :: "jsstring matcher" where
  "reTag prev s =
     (case s of
        [] \<Rightarrow> None
      | c # cs \<Rightarrow>
          if c = 0x23 \<and> takeWhile isWordChar cs \<noteq> []
          then Some (1 + length (takeWhile isWordChar cs), takeWhile isWordChar cs)
          else None)"

text \<open>\<^verbatim>\<open>/\bkw\b/i\<close> for a literal \<open>kw\<close>: \<^verbatim>\<open>today\<close>, \<^verbatim>\<open>tomorrow\<close>, \<^verbatim>\<open>next week\<close>.\<close>

definition reKeyword :: "jsstring \<Rightarrow> unit matcher" where
  "reKeyword kw prev s =
     (if wordBoundary prev (nextChar s) \<and> startsWithCI kw s
         \<and> wordBoundary (nextChar (rev (take (length kw) s))) (nextChar (drop (length kw) s))
      then Some (length kw, ()) else None)"

definition reToday :: "unit matcher" where
  "reToday = reKeyword (js ''today'')"

definition reTomorrow :: "unit matcher" where
  "reTomorrow = reKeyword (js ''tomorrow'')"

definition reNextWeek :: "unit matcher" where
  "reNextWeek = reKeyword (js ''next week'')"

text \<open>
  \<^verbatim>\<open>/\b(\d{1,2})(?::(\d{2}))?\s*(am|pm)\b/i\<close>, tried in the order of a backtracking
  matcher: two digits before one, the minutes group before its absence. \<^verbatim>\<open>\s*\<close> takes
  the whole run of white space: after a shorter run the next code unit is white space,
  where \<^verbatim>\<open>(am|pm)\<close> cannot match. The captures are groups 1, 2 and 3.
\<close>

definition meridiemAt :: "jsstring \<Rightarrow> (nat \<times> jsstring) option" where
  "meridiemAt s =
     (let r = dropWhile isSpace s
      in if (startsWithCI (js ''am'') r \<or> startsWithCI (js ''pm'') r)
            \<and> wordBoundary (nextChar (drop 1 r)) (nextChar (drop 2 r))
         then Some (length (takeWhile isSpace s) + 2, take 2 r)
         else None)"

definition minutesAt :: "jsstring \<Rightarrow> (nat \<times> jsstring option \<times> jsstring) option" where
  "minutesAt s =
     (case (case s of
              c # d1 # d2 # r \<Rightarrow>
                if c = 0x3A \<and> isDigit d1 \<and> isDigit d2
                then map_option (\<lambda>(n, g3). (3 + n, Some [d1, d2], g3)) (meridiemAt r)
                else None
            | _ \<Rightarrow> None) of
        Some x \<Rightarrow> Some x
      | None \<Rightarrow> map_option (\<lambda>(n, g3). (n, None, g3)) (meridiemAt s))"

definition reTime :: "(jsstring \<times> jsstring option \<times> jsstring) matcher" where
  "reTime prev s =
     (if wordBoundary prev (nextChar s) then
        (case (case s of
                 d1 # d2 # r \<Rightarrow>
                   if isDigit d1 \<and> isDigit d2
                   then map_option (\<lambda>(n, g2, g3). (2 + n, [d1, d2], g2, g3)) (minutesAt r)
                   else None
               | _ \<Rightarrow> None) of
           Some x \<Rightarrow> Some x
         | None \<Rightarrow>
             (case s of
                d1 # r \<Rightarrow>
                  if isDigit d1
                  then map_option (\<lambda>(n, g2, g3). (1 + n, [d1], g2, g3)) (minutesAt r)
                  else None
              | _ \<Rightarrow> None))
      else None)"

text \<open>\<^verbatim>\<open>/\s{2,}/\<close>\<close>

definition reSpaces :: "unit matcher" where
  "reSpaces prev s =
     (if 2 \<le> length (takeWhile isSpace s) then Some (length (takeWhile isSpace s), ()) else None)"

text \<open>
  One pass of a regular expression over a string, from left to right: the string is cut
  into the code units that no match covers and the matches, each with its captures. The
  search resumes where a match ended, with the last matched code unit before it; after
  an empty match it moves on by one code unit.
\<close>

datatype 'c piece = Unmatched jschar | Matched jsstring 'c

function scan :: "'c matcher \<Rightarrow> jschar option \<Rightarrow> jsstring \<Rightarrow> 'c piece list" where
  "scan m prev [] = (case m prev [] of None \<Rightarrow> [] | Some (n, cap) \<Rightarrow> [Matched [] cap])"
| "scan m prev (c # cs) =
     (case m prev (c # cs) of
        None \<Rightarrow> Unmatched c # scan m (Some c) cs
      | Some (n, cap) \<Rightarrow>
          if n = 0 then Matched [] cap # Unmatched c # scan m (Some c) cs
          else Matched (take n (c # cs)) cap
                 # scan m (nextChar (rev (take n (c # cs)))) (drop n (c # cs)))"
  by pat_completeness auto
termination
  by (relation "measure (\<lambda>(m, prev, s). length s)") auto

text \<open>The matches of a pass, in order: the arguments of the successive calls of a
  replacement function. \<^verbatim>\<open>re.test(s)\<close> tells whether there is one, and a
  \<^verbatim>\<open>s.match(re)\<close> without the \<^verbatim>\<open>g\<close> flag gives the first.\<close>

fun matches :: "'c piece list \<Rightarrow> (jsstring \<times> 'c) list" where
  "matches [] = []"
| "matches (Unmatched c # ps) = matches ps"
| "matches (Matched w cap # ps) = (w, cap) # matches ps"

definition test :: "'c matcher \<Rightarrow> jsstring \<Rightarrow> bool" where
  "test m s = (matches (scan m None s) \<noteq> [])"

definition firstMatch :: "'c matcher \<Rightarrow> jsstring \<Rightarrow> (jsstring \<times> 'c) option" where
  "firstMatch m s = (case matches (scan m None s) of [] \<Rightarrow> None | x # _ \<Rightarrow> Some x)"

text \<open>\<^verbatim>\<open>s.replace(re, f)\<close> with the \<^verbatim>\<open>g\<close> flag: every match gives way to what \<open>f\<close>
  returns for it.\<close>

fun substitute :: "(jsstring \<Rightarrow> 'c \<Rightarrow> jsstring) \<Rightarrow> 'c piece list \<Rightarrow> jsstring" where
  "substitute f [] = []"
| "substitute f (Unmatched c # ps) = c # substitute f ps"
| "substitute f (Matched w cap # ps) = f w cap @ substitute f ps"

definition replaceAll :: "'c matcher \<Rightarrow> jsstring \<Rightarrow> jsstring \<Rightarrow> jsstring" where
  "replaceAll m rep s = substitute (\<lambda>w cap. rep) (scan m None s)"

text \<open>\<^verbatim>\<open>s.replace(w, '')\<close> with a string \<open>w\<close>: its first occurrence is removed.\<close>

fun removeFirst :: "jsstring \<Rightarrow> jsstring \<Rightarrow> jsstring" where
  "removeFirst w [] = []"
| "removeFirst w (c # cs) =
     (if take (length w) (c # cs) = w then drop (length w) (c # cs) else c # removeFirst w cs)"

definition trim :: "jsstring \<Rightarrow> jsstring" where
  "trim s = rev (dropWhile isSpace (rev (dropWhile isSpace s)))"

text \<open>\<^verbatim>\<open>parseInt\<close> on a string of decimal digits, \<^verbatim>\<open>toLowerCase\<close> on ASCII letters.\<close>

definition parseInt :: "jsstring \<Rightarrow> int" where
  "parseInt ds = foldl (\<lambda>a d. 10 * a + (uint d - 0x30)) 0 ds"

definition lowerAscii :: "jsstring \<Rightarrow> jsstring" where
  "lowerAscii s = map (\<lambda>c. if 0x41 \<le> c \<and> c \<le> 0x5A then c + 0x20 else c) s"

subsection \<open>The natural-language parser\<close>

record parsed =
  p_title :: jsstring
  p_dueAt :: "int option"
  p_priority :: jsstring
  p_tags :: "jsstring list"

text \<open>Priority markers: three replacements in turn, each setting the priority when it
  finds a match.\<close>

definition priorityStage :: "jsstring \<Rightarrow> jsstring \<times> jsstring" where
  "priorityStage text =
     (let p1 = (if test reHigh text then js ''high'' else js ''medium'');
          t1 = replaceAll reHigh [] text;
          p2 = (if test reMed t1 then js ''medium'' else p1);
          t2 = replaceAll reMed [] t1;
          p3 = (if test reLow t2 then js ''low'' else p2);
          t3 = replaceAll reLow [] t2
      in (p3, t3))"

definition tagStage :: "jsstring \<Rightarrow> jsstring list \<times> jsstring" where
  "tagStage text = (map snd (matches (scan reTag None text)), replaceAll reTag [] text)"

definition dateStage :: "'a clock_scheme \<Rightarrow> jsstring \<Rightarrow> int option \<times> jsstring" where
  "dateStage c text =
     (if test reToday text then
        (Some (localDate c (now c) 23 59), replaceAll reToday [] text)
      else if test reTomorrow text then
        (Some (localDate c (addDays c (now c) 1) 9 0), replaceAll reTomorrow [] text)
      else if test reNextWeek text then
        (Some (addDays c (now c) 7), replaceAll reNextWeek [] text)
      else (None, text))"

text \<open>The hour of the 24-hour clock, from the number before \<^verbatim>\<open>am\<close> or \<^verbatim>\<open>pm\<close>.\<close>

definition hour24 :: "jsstring \<Rightarrow> int \<Rightarrow> int" where
  "hour24 meridiem h =
     (let h1 = (if meridiem = js ''pm'' \<and> h \<noteq> 12 then h + 12 else h)
      in if meridiem = js ''am'' \<and> h1 = 12 then 0 else h1)"

definition timeStage :: "'a clock_scheme \<Rightarrow> int option \<Rightarrow> jsstring \<Rightarrow> int option \<times> jsstring" where
  "timeStage c due text =
     (case (firstMatch reTime text, due) of
        (Some (w, g1, g2, g3), Some d) \<Rightarrow>
          (let h = parseInt g1;
               m = parseInt (case g2 of None \<Rightarrow> js ''0'' | Some mm \<Rightarrow> mm);
               meridiem = lowerAscii g3
           in (Some (setHours c d (hour24 meridiem h) m), removeFirst w text))
      | _ \<Rightarrow> (due, text))"

definition parseNLP :: "'a clock_scheme \<Rightarrow> jsstring \<Rightarrow> parsed" where
  "parseNLP c text =
     (let (prio, t3) = priorityStage text;
          (tgs, t4) = tagStage t3;
          (due, t5) = dateStage c t4;
          (due', t6) = timeStage c due t5
      in \<lparr> p_title = trim (replaceAll reSpaces (js '' '') t6),
           p_dueAt = due', p_priority = prio, p_tags = tgs \<rparr>)"

subsection \<open>Sample data\<close>

text \<open>A clock, an environment, tasks and a state for the closed examples below. The
  state is the initial one of the program, in the view of all tasks.\<close>

definition utcZone :: "int \<Rightarrow> bool \<Rightarrow> int" where
  "utcZone t isUTC = 0"

definition sampleClock :: clock where
  "sampleClock = \<lparr> now = 0, localTZA = utcZone \<rparr>"

definition sampleEnv :: env where
  "sampleEnv = \<lparr> now = 0, localTZA = utcZone, toLowerCase = lowerAscii,
                 localeCompare = (\<lambda>a b. 0), maxArguments = 100000 \<rparr>"






definition sampleTask :: "jsstring \<Rightarrow> jsstring \<Rightarrow> int \<Rightarrow> int option \<Rightarrow> int option \<Rightarrow> task" where
  "sampleTask i p k due completed =
     createTask sampleEnv i
       \<lparr> d_id = None, d_title = Some i, d_description = None, d_createdAt = None,
         d_dueAt = due, d_completedAt = completed, d_priority = Some p, d_tags = None,
         d_subtasks = None, d_order = Some k, d_starred = None, d_reminderAt = None,
         d_metadata = None \<rparr>"

definition sampleData :: "jsstring \<Rightarrow> task_data" where
  "sampleData t =
     \<lparr> d_id = None, d_title = Some t, d_description = None, d_createdAt = None,
       d_dueAt = None, d_completedAt = None, d_priority = None, d_tags = None,
       d_subtasks = None, d_order = None, d_starred = None, d_reminderAt = None,
       d_metadata = None \<rparr>"

definition sampleState :: "task list \<Rightarrow> state" where
  "sampleState ts =
     \<lparr> tasks = ts, currentView = js ''all'', searchQuery = [], sortBy = js ''custom'',
       filterPriorities = [], filterDue = [], filterTag = None, tf_tasks = ts \<rparr>"

section \<open>Properties of the sort\<close>

lemma mset_insertBy: "mset (insertBy cmp a bs) = add_mset a (mset bs)"
  by (induction bs) auto

lemma mset_js_sort: "mset (js_sort cmp xs) = mset xs"
  unfolding js_sort_def by (induction xs) (auto simp: mset_insertBy)

lemma length_js_sort: "length (js_sort cmp xs) = length xs"
  using mset_js_sort [of cmp xs] by (metis size_mset)

lemma set_js_sort: "set (js_sort cmp xs) = set xs"
  using mset_js_sort [of cmp xs] by (metis set_mset_mset)


lemma js_sort_Cons: "js_sort cmp (x # xs) = insertBy cmp x (js_sort cmp xs)"
  by (simp add: js_sort_def)

lemma insertBy_last: "\<forall>b \<in> set bs. 0 < cmp a b \<Longrightarrow> insertBy cmp a bs = bs @ [a]"
  by (induction bs) auto









section \<open>Properties of the filters\<close>

text \<open>Each stage of the pipeline keeps the tasks that satisfy a predicate fixed by the
  query alone.\<close>

lemma viewFilter_is_filter: "\<exists>P. \<forall>ts. viewFilter e v ts = filter P ts"
proof (cases "v = js ''today'' \<or> v = js ''upcoming'' \<or> v = js ''all'' \<or> v = js ''starred''
                \<or> v = js ''completed''")
  case True
  then show ?thesis by (auto simp: viewFilter_def)
next
  case False
  then have "\<forall>ts. viewFilter e v ts = filter (\<lambda>_. True) ts" by (simp add: viewFilter_def)
  then show ?thesis by blast
qed

lemma tagFilter_is_filter: "\<exists>P. \<forall>ts. tagFilter g ts = filter P ts"
proof (cases "g = None \<or> g = Some []")
  case True
  then have "\<forall>ts. tagFilter g ts = filter (\<lambda>_. True) ts" by (auto simp: tagFilter_def)
  then show ?thesis by blast
next
  case False
  then show ?thesis by (auto simp: tagFilter_def)
qed

lemma priorityFilter_is_filter: "\<exists>P. \<forall>ts. priorityFilter ps ts = filter P ts"
proof (cases "ps = []")
  case True
  then have "\<forall>ts. priorityFilter ps ts = filter (\<lambda>_. True) ts"
    by (auto simp: priorityFilter_def)
  then show ?thesis by blast
next
  case False
  then show ?thesis by (auto simp: priorityFilter_def)
qed

lemma dueFilter_is_filter: "\<exists>P. \<forall>ts. dueFilter e d ts = filter P ts"
proof (cases "d = js ''today'' \<or> d = js ''week'' \<or> d = js ''overdue''")
  case True
  then show ?thesis by (auto simp: dueFilter_def)
next
  case False
  then have "\<forall>ts. dueFilter e d ts = filter (\<lambda>_. True) ts" by (auto simp: dueFilter_def)
  then show ?thesis by blast
qed

lemma searchFilter_is_filter: "\<exists>P. \<forall>ts. searchFilter e q ts = filter P ts"
proof (cases "q = []")
  case True
  then have "\<forall>ts. searchFilter e q ts = filter (\<lambda>_. True) ts"
    by (auto simp: searchFilter_def)
  then show ?thesis by blast
next
  case False
  then show ?thesis by (auto simp: searchFilter_def Let_def)
qed

lemma pipeline_is_filter:
  "\<exists>P. \<forall>ts. searchFilter e q (dueFilter e d (priorityFilter ps (tagFilter g
            (viewFilter e v ts)))) = filter P ts"
proof -
  obtain S where S: "\<And>ts. searchFilter e q ts = filter S ts"
    using searchFilter_is_filter by blast
  obtain D where D: "\<And>ts. dueFilter e d ts = filter D ts"
    using dueFilter_is_filter by blast
  obtain R where R: "\<And>ts. priorityFilter ps ts = filter R ts"
    using priorityFilter_is_filter by blast
  obtain G where G: "\<And>ts. tagFilter g ts = filter G ts"
    using tagFilter_is_filter by blast
  obtain V where V: "\<And>ts. viewFilter e v ts = filter V ts"
    using viewFilter_is_filter by blast
  have "\<forall>ts. searchFilter e q (dueFilter e d (priorityFilter ps (tagFilter g
            (viewFilter e v ts)))) = filter (\<lambda>t. V t \<and> G t \<and> R t \<and> D t \<and> S t) ts"
    by (simp add: S D R G V)
  then show ?thesis by blast
qed

lemma length_filter_mono:
  "(\<And>x. P x \<Longrightarrow> Q x) \<Longrightarrow> length (filter P xs) \<le> length (filter Q xs)"
  by (induction xs) auto

lemma getFilteredTasks_length:
  "length (getFilteredTasks e s) =
   length (searchFilter e (searchQuery s) (dueFilter e (filterDue s)
      (priorityFilter (filterPriorities s) (tagFilter (filterTag s)
          (viewFilter e (currentView s) (tasks s))))))"
  by (simp add: getFilteredTasks_def length_js_sort)

lemma add_tag_shrinks:
  assumes "filterTag s = None"
  shows "length (getFilteredTasks e (s\<lparr>filterTag := Some g\<rparr>)) \<le> length (getFilteredTasks e s)"
proof -
  obtain S where S: "\<And>ts. searchFilter e (searchQuery s) ts = filter S ts"
    using searchFilter_is_filter by blast
  obtain D where D: "\<And>ts. dueFilter e (filterDue s) ts = filter D ts"
    using dueFilter_is_filter by blast
  obtain R where R: "\<And>ts. priorityFilter (filterPriorities s) ts = filter R ts"
    using priorityFilter_is_filter by blast
  obtain G where G: "\<And>ts. tagFilter (Some g) ts = filter G ts"
    using tagFilter_is_filter by blast
  have N: "\<And>ts. tagFilter (filterTag s) ts = ts" using assms by (simp add: tagFilter_def)
  show ?thesis
    by (simp add: getFilteredTasks_length S D R G N) (rule length_filter_mono, simp)
qed

lemma add_due_shrinks:
  assumes "filterDue s = []"
  shows "length (getFilteredTasks e (s\<lparr>filterDue := d\<rparr>)) \<le> length (getFilteredTasks e s)"
proof -
  obtain S where S: "\<And>ts. searchFilter e (searchQuery s) ts = filter S ts"
    using searchFilter_is_filter by blast
  obtain D where D: "\<And>ts. dueFilter e d ts = filter D ts"
    using dueFilter_is_filter by blast
  have N: "\<And>ts. dueFilter e (filterDue s) ts = ts"
    using assms by (simp add: dueFilter_def js_def)
  show ?thesis
    by (simp add: getFilteredTasks_length S D N) (rule length_filter_mono, simp)
qed

lemma first_priority_shrinks:
  assumes "filterPriorities s = []"
  shows "length (getFilteredTasks e (s\<lparr>filterPriorities := ps\<rparr>))
         \<le> length (getFilteredTasks e s)"
proof -
  obtain S where S: "\<And>ts. searchFilter e (searchQuery s) ts = filter S ts"
    using searchFilter_is_filter by blast
  obtain D where D: "\<And>ts. dueFilter e (filterDue s) ts = filter D ts"
    using dueFilter_is_filter by blast
  obtain R where R: "\<And>ts. priorityFilter ps ts = filter R ts"
    using priorityFilter_is_filter by blast
  have N: "\<And>ts. priorityFilter (filterPriorities s) ts = ts"
    using assms by (simp add: priorityFilter_def)
  show ?thesis
    by (simp add: getFilteredTasks_length S D R N) (rule length_filter_mono, simp)
qed

lemma more_priorities_grow:
  assumes "filterPriorities s \<noteq> []" "set (filterPriorities s) \<subseteq> set ps"
  shows "length (getFilteredTasks e s)
         \<le> length (getFilteredTasks e (s\<lparr>filterPriorities := ps\<rparr>))"
proof -
  obtain S where S: "\<And>ts. searchFilter e (searchQuery s) ts = filter S ts"
    using searchFilter_is_filter by blast
  obtain D where D: "\<And>ts. dueFilter e (filterDue s) ts = filter D ts"
    using dueFilter_is_filter by blast
  have "ps \<noteq> []" using assms by auto
  then show ?thesis using assms
    by (auto simp add: getFilteredTasks_length S D priorityFilter_def intro!: length_filter_mono)
qed

text \<open>
  C1, as stated, fails: the selected priorities are alternatives, so selecting \<^verbatim>\<open>low\<close>
  besides \<^verbatim>\<open>high\<close> lets a task of low priority into the result.
\<close>

theorem more_priorities_counterexample:
  "\<not> length (getFilteredTasks sampleEnv
        ((sampleState [sampleTask (js ''a'') (js ''high'') 0 None None,
                       sampleTask (js ''b'') (js ''low'') 1 None None])
          \<lparr>filterPriorities := [js ''high'', js ''low'']\<rparr>))
     \<le> length (getFilteredTasks sampleEnv
        ((sampleState [sampleTask (js ''a'') (js ''high'') 0 None None,
                       sampleTask (js ''b'') (js ''low'') 1 None None])
          \<lparr>filterPriorities := [js ''high'']\<rparr>))"
  by (simp add: getFilteredTasks_length sampleState_def sampleTask_def createTask_def
      sampleEnv_def viewFilter_def tagFilter_def priorityFilter_def dueFilter_def
      searchFilter_def str_or_def js_def)

text \<open>
  C1, amended. Setting a tag filter where none was set, a due-date bucket where none was
  set, or a selection of priorities where none was selected never makes the result
  longer; selecting more priorities where some are selected already never makes it
  shorter.
\<close>

theorem filtering_monotonic:
  "(filterTag s = None \<longrightarrow>
      length (getFilteredTasks e (s\<lparr>filterTag := Some g\<rparr>)) \<le> length (getFilteredTasks e s))
   \<and> (filterDue s = [] \<longrightarrow>
      length (getFilteredTasks e (s\<lparr>filterDue := d\<rparr>)) \<le> length (getFilteredTasks e s))
   \<and> (filterPriorities s = [] \<longrightarrow>
      length (getFilteredTasks e (s\<lparr>filterPriorities := ps\<rparr>))
        \<le> length (getFilteredTasks e s))
   \<and> (filterPriorities s \<noteq> [] \<and> set (filterPriorities s) \<subseteq> set ps \<longrightarrow>
      length (getFilteredTasks e s)
        \<le> length (getFilteredTasks e (s\<lparr>filterPriorities := ps\<rparr>)))"
  using add_tag_shrinks add_due_shrinks first_priority_shrinks more_priorities_grow
  by blast

theorem filtering_monotonic_witness:
  "filterTag (sampleState [sampleTask (js ''a'') (js ''high'') 0 None None]) = None
   \<and> filterDue (sampleState [sampleTask (js ''a'') (js ''high'') 0 None None]) = []
   \<and> filterPriorities (sampleState [sampleTask (js ''a'') (js ''high'') 0 None None]) = []
   \<and> length (getFilteredTasks sampleEnv
         ((sampleState [sampleTask (js ''a'') (js ''high'') 0 None None])
            \<lparr>filterTag := Some (js ''work'')\<rparr>))
       \<le> length (getFilteredTasks sampleEnv
            (sampleState [sampleTask (js ''a'') (js ''high'') 0 None None]))
   \<and> length (getFilteredTasks sampleEnv
         ((sampleState [sampleTask (js ''a'') (js ''high'') 0 None None])
            \<lparr>filterDue := js ''today''\<rparr>))
       \<le> length (getFilteredTasks sampleEnv
            (sampleState [sampleTask (js ''a'') (js ''high'') 0 None None]))
   \<and> length (getFilteredTasks sampleEnv
         ((sampleState [sampleTask (js ''a'') (js ''high'') 0 None None])
            \<lparr>filterPriorities := [js ''low'']\<rparr>))
       \<le> length (getFilteredTasks sampleEnv
            (sampleState [sampleTask (js ''a'') (js ''high'') 0 None None]))
   \<and> length (getFilteredTasks sampleEnv
         ((sampleState [sampleTask (js ''a'') (js ''high'') 0 None None])
            \<lparr>filterPriorities := [js ''low'']\<rparr>))
       \<le> length (getFilteredTasks sampleEnv
            ((sampleState [sampleTask (js ''a'') (js ''high'') 0 None None])
               \<lparr>filterPriorities := [js ''low'', js ''high'']\<rparr>))"
  using filtering_monotonic [of "sampleState [sampleTask (js ''a'') (js ''high'') 0 None None]"
      sampleEnv "js ''work''" "js ''today''" "[js ''low'']"]
    filtering_monotonic [of "(sampleState [sampleTask (js ''a'') (js ''high'') 0 None None])
            \<lparr>filterPriorities := [js ''low'']\<rparr>"
      sampleEnv "js ''work''" "js ''today''" "[js ''low'', js ''high'']"]
  by (simp add: sampleState_def)

text \<open>
  C7. In the view \<^verbatim>\<open>completed\<close>, with no tag, no priority, no due-date bucket and no
  search text, the result is the completed tasks, sorted: exactly the tasks whose
  \<^verbatim>\<open>completedAt\<close> is set, each as often as the collection holds it, whatever their
  due dates and priorities.
\<close>

theorem completed_view_exact:
  assumes "currentView s = js ''completed''" and "filterTag s = None"
    and "filterPriorities s = []" and "filterDue s = []" and "searchQuery s = []"
  shows "getFilteredTasks e s =
           js_sort (compareTasks e (sortBy s)) (filter (\<lambda>t. completedAt t \<noteq> None) (tasks s))
         \<and> mset (getFilteredTasks e s) = filter_mset (\<lambda>t. completedAt t \<noteq> None) (mset (tasks s))"
proof -
  have "getFilteredTasks e s =
           js_sort (compareTasks e (sortBy s)) (filter (\<lambda>t. completedAt t \<noteq> None) (tasks s))"
    using assms
    by (simp add: getFilteredTasks_def viewFilter_def tagFilter_def priorityFilter_def
        dueFilter_def searchFilter_def js_def)
  then show ?thesis by (simp add: mset_js_sort)
qed

theorem completed_view_exact_witness:
  "getFilteredTasks sampleEnv
     ((sampleState [sampleTask (js ''a'') (js ''high'') 0 None None,
                    sampleTask (js ''b'') (js ''low'') 1 (Some 5) (Some 9),
                    sampleTask (js ''c'') (js ''high'') 2 None (Some 3)])
        \<lparr>currentView := js ''completed''\<rparr>)
   = [sampleTask (js ''b'') (js ''low'') 1 (Some 5) (Some 9),
      sampleTask (js ''c'') (js ''high'') 2 None (Some 3)]"
  using completed_view_exact [of "(sampleState [sampleTask (js ''a'') (js ''high'') 0 None None,
                    sampleTask (js ''b'') (js ''low'') 1 (Some 5) (Some 9),
                    sampleTask (js ''c'') (js ''high'') 2 None (Some 3)])
        \<lparr>currentView := js ''completed''\<rparr>" sampleEnv]
  by (simp add: sampleState_def sampleTask_def createTask_def js_sort_def compareTasks_def js_def)

section \<open>Properties of the task mutations\<close>

lemma findIndex_Some:
  "findIndex i ts = Some k \<Longrightarrow> k < length ts \<and> task_id (ts ! k) = i"
  by (induction ts arbitrary: k) (auto split: if_splits)

lemma findIndex_mem:
  "i \<in> task_id ` set ts \<Longrightarrow> \<exists>k. findIndex i ts = Some k"
  by (induction ts) auto

lemma findIndex_distinct:
  assumes "distinct (map task_id ts)" and "A \<in> set ts"
  shows "\<exists>k. findIndex (task_id A) ts = Some k \<and> k < length ts \<and> ts ! k = A"
proof -
  obtain k where k: "findIndex (task_id A) ts = Some k"
    using findIndex_mem assms(2) by blast
  then have kl: "k < length ts" "task_id (ts ! k) = task_id A"
    using findIndex_Some by blast+
  obtain m where m: "m < length ts" "ts ! m = A"
    using assms(2) by (meson in_set_conv_nth)
  then have "map task_id ts ! m = map task_id ts ! k" using kl by simp
  moreover have "m < length (map task_id ts)" "k < length (map task_id ts)"
    using m kl by simp_all
  ultimately have "m = k" using assms(1) nth_eq_iff_index_eq by blast
  then show ?thesis using k kl m by blast
qed

text \<open>The four assignments of the swap, on two different positions of a list without
  repetition.\<close>

lemma swap_assignments:
  fixes n :: int
  assumes dt: "distinct ts" and i: "i < length ts" "ts ! i = A"
    and j: "j < length ts" "ts ! j = B" and AB: "A \<noteq> B"
  defines "ts1 \<equiv> ts[i := (ts ! i)\<lparr>order := order (ts ! j)\<rparr>]"
  defines "ts2 \<equiv> ts1[j := (ts1 ! j)\<lparr>order := order (ts ! i)\<rparr>]"
  defines "ts3 \<equiv> ts2[j := (ts2 ! j)\<lparr>updatedAt := n\<rparr>]"
  shows "ts3[i := (ts3 ! i)\<lparr>updatedAt := n\<rparr>] =
         map (\<lambda>t. if t = A then A\<lparr>order := order B, updatedAt := n\<rparr>
                    else if t = B then B\<lparr>order := order A, updatedAt := n\<rparr>
                    else t) ts"
proof (rule nth_equalityI)
  show "length (ts3[i := (ts3 ! i)\<lparr>updatedAt := n\<rparr>]) =
        length (map (\<lambda>t. if t = A then A\<lparr>order := order B, updatedAt := n\<rparr>
                    else if t = B then B\<lparr>order := order A, updatedAt := n\<rparr>
                    else t) ts)"
    by (simp add: ts1_def ts2_def ts3_def)
next
  fix k
  assume "k < length (ts3[i := (ts3 ! i)\<lparr>updatedAt := n\<rparr>])"
  then have k: "k < length ts" by (simp add: ts1_def ts2_def ts3_def)
  have ij: "i \<noteq> j" using i j AB by auto
  have other: "k \<noteq> i \<Longrightarrow> ts ! k \<noteq> A" using dt i k nth_eq_iff_index_eq by blast
  have other': "k \<noteq> j \<Longrightarrow> ts ! k \<noteq> B" using dt j k nth_eq_iff_index_eq by blast
  consider "k = i" | "k = j" | "k \<noteq> i" "k \<noteq> j" by blast
  then show "ts3[i := (ts3 ! i)\<lparr>updatedAt := n\<rparr>] ! k =
        map (\<lambda>t. if t = A then A\<lparr>order := order B, updatedAt := n\<rparr>
                    else if t = B then B\<lparr>order := order A, updatedAt := n\<rparr>
                    else t) ts ! k"
  proof cases
    case 1
    then show ?thesis using i j ij by (simp add: ts1_def ts2_def ts3_def)
  next
    case 2
    then show ?thesis using i j ij AB by (simp add: ts1_def ts2_def ts3_def)
  next
    case 3
    then show ?thesis using k other other' by (simp add: ts1_def ts2_def ts3_def)
  qed
qed

text \<open>
  C9, as stated, fails: the tasks are found by identifier, and an imported file can bring
  two tasks of one identifier (the import compares the new identifiers with the existing
  ones only). Reordering the second of them onto another task then swaps the first: the
  dragged task keeps its order, and a task that was not dragged changes.
\<close>

theorem reorderTasks_counterexample:
  "task_id (sampleTask (js ''a'') (js ''low'') 2 None None) = js ''a''
   \<and> tasks (reorderTasks (sampleEnv\<lparr>now := 50\<rparr>) (js ''a'') (js ''b'')
        (sampleState [sampleTask (js ''a'') (js ''high'') 1 None None,
                      sampleTask (js ''a'') (js ''low'') 2 None None,
                      sampleTask (js ''b'') (js ''low'') 3 None None]))
     = [(sampleTask (js ''a'') (js ''high'') 1 None None)\<lparr>order := 3, updatedAt := 50\<rparr>,
        sampleTask (js ''a'') (js ''low'') 2 None None,
        (sampleTask (js ''b'') (js ''low'') 3 None None)\<lparr>order := 1, updatedAt := 50\<rparr>]"
  by (simp add: reorderTasks_def sampleState_def sampleTask_def createTask_def sampleEnv_def
      str_or_def js_def Let_def)

text \<open>
  C9, amended. In a collection whose tasks have pairwise different identifiers,
  reordering task A onto another task B gives A the order of B and B the order of A and
  stamps both with the current time; no other field of A or B changes, every other task
  stays as it is, and the collection keeps its tasks and their positions.
\<close>

theorem reorderTasks_swaps_orders:
  assumes d: "distinct (map task_id (tasks s))"
    and A: "A \<in> set (tasks s)" and B: "B \<in> set (tasks s)" and AB: "A \<noteq> B"
  shows "tasks (reorderTasks e (task_id A) (task_id B) s) =
           map (\<lambda>t. if t = A then A\<lparr>order := order B, updatedAt := now e\<rparr>
                      else if t = B then B\<lparr>order := order A, updatedAt := now e\<rparr>
                      else t) (tasks s)
         \<and> length (tasks (reorderTasks e (task_id A) (task_id B) s)) = length (tasks s)
         \<and> tf_tasks (reorderTasks e (task_id A) (task_id B) s) =
             tasks (reorderTasks e (task_id A) (task_id B) s)"
proof -
  obtain i where i: "findIndex (task_id A) (tasks s) = Some i" "i < length (tasks s)"
      "tasks s ! i = A"
    using findIndex_distinct [OF d A] by blast
  obtain j where j: "findIndex (task_id B) (tasks s) = Some j" "j < length (tasks s)"
      "tasks s ! j = B"
    using findIndex_distinct [OF d B] by blast
  have dt: "distinct (tasks s)"
    using d by (rule distinct_map [THEN iffD1, THEN conjunct1])
  note L = swap_assignments [OF dt i(2,3) j(2,3) AB, of "now e"]
  have "tasks (reorderTasks e (task_id A) (task_id B) s) =
           map (\<lambda>t. if t = A then A\<lparr>order := order B, updatedAt := now e\<rparr>
                      else if t = B then B\<lparr>order := order A, updatedAt := now e\<rparr>
                      else t) (tasks s)"
    unfolding reorderTasks_def Let_def i(1) j(1) using L by simp
  moreover have "tf_tasks (reorderTasks e (task_id A) (task_id B) s) =
             tasks (reorderTasks e (task_id A) (task_id B) s)"
    unfolding reorderTasks_def Let_def i(1) j(1) by simp
  ultimately show ?thesis by simp
qed

theorem reorderTasks_swaps_orders_witness:
  "distinct (map task_id [sampleTask (js ''a'') (js ''high'') 1 None None,
                          sampleTask (js ''b'') (js ''low'') 2 None None,
                          sampleTask (js ''c'') (js ''low'') 3 None None])
   \<and> tasks (reorderTasks (sampleEnv\<lparr>now := 50\<rparr>) (js ''a'') (js ''b'')
        (sampleState [sampleTask (js ''a'') (js ''high'') 1 None None,
                      sampleTask (js ''b'') (js ''low'') 2 None None,
                      sampleTask (js ''c'') (js ''low'') 3 None None]))
     = [(sampleTask (js ''a'') (js ''high'') 1 None None)\<lparr>order := 2, updatedAt := 50\<rparr>,
        (sampleTask (js ''b'') (js ''low'') 2 None None)\<lparr>order := 1, updatedAt := 50\<rparr>,
        sampleTask (js ''c'') (js ''low'') 3 None None]"
  using reorderTasks_swaps_orders [of
      "sampleState [sampleTask (js ''a'') (js ''high'') 1 None None,
                    sampleTask (js ''b'') (js ''low'') 2 None None,
                    sampleTask (js ''c'') (js ''low'') 3 None None]"
      "sampleTask (js ''a'') (js ''high'') 1 None None"
      "sampleTask (js ''b'') (js ''low'') 2 None None"
      "sampleEnv\<lparr>now := 50\<rparr>"]
  by (simp add: sampleState_def sampleTask_def createTask_def sampleEnv_def str_or_def js_def)

lemma spacing_small: "a < 2 ^ 53 \<Longrightarrow> spacing a = 1"
  by (subst spacing.simps) simp

lemma spacing_first: "spacing (2 ^ 53) = 2"
  by (subst spacing.simps) (simp add: spacing_small)

lemma roundToDouble_safe: "\<bar>n\<bar> \<le> 2 ^ 53 \<Longrightarrow> roundToDouble n = n"
proof -
  assume a: "\<bar>n\<bar> \<le> 2 ^ 53"
  show ?thesis
  proof (cases "\<bar>n\<bar> < 2 ^ 53")
    case True
    then have s: "spacing \<bar>n\<bar> = 1" by (rule spacing_small)
    have "sgn n * \<bar>n\<bar> = n" by (simp add: mult_sgn_abs)
    then show ?thesis unfolding roundToDouble_def Let_def s by simp
  next
    case False
    then have e: "\<bar>n\<bar> = 2 ^ 53" using a by simp
    have "sgn n * \<bar>n\<bar> = n" by (simp add: mult_sgn_abs)
    then show ?thesis unfolding roundToDouble_def Let_def e spacing_first by simp
  qed
qed

lemma fold_max_Max:
  "ts \<noteq> [] \<Longrightarrow> fold max (tl (map order ts)) (hd (map order ts)) = Max (order ` set ts)"
proof -
  assume "ts \<noteq> []"
  then obtain t ts' where c: "ts = t # ts'" by (cases ts) auto
  have "fold max (map order ts') (order t) = Max (set (order t # map order ts'))"
    by (simp only: Max.set_eq_fold)
  then show ?thesis using c by simp
qed

lemma nextOrder_safe:
  assumes "length ts \<le> maxArguments e" and "\<forall>u \<in> set ts. \<bar>order u\<bar> < 2 ^ 53"
  shows "nextOrder e ts = Inr (if ts = [] then 0 else Max (order ` set ts) + 1)"
proof (cases "ts = []")
  case True
  then show ?thesis by (simp add: nextOrder_def)
next
  case False
  have "Max (order ` set ts) \<in> order ` set ts" using False by (intro Max_in) auto
  then have "\<bar>Max (order ` set ts)\<bar> < 2 ^ 53" using assms(2) by auto
  then have "\<bar>Max (order ` set ts) + 1\<bar> \<le> 2 ^ 53" by simp
  then have "roundToDouble (Max (order ` set ts) + 1) = Max (order ` set ts) + 1"
    by (rule roundToDouble_safe)
  then show ?thesis using False assms(1) by (simp add: nextOrder_def fold_max_Max)
qed

lemma createTask_order: "order (createTask e fresh (d\<lparr>d_order := Some k\<rparr>)) = k"
  by (simp add: createTask_def)

text \<open>
  C10, as stated, fails on two kinds of collection. The order is a double: beside a task
  of order \<open>2 ^ 53\<close>, which an imported file can bring, the sum of the maximum and one
  rounds to the maximum, so the new task has the order of that task and, stored in front
  of it, is listed before it under the \<^verbatim>\<open>custom\<close> sort. And the orders are passed as
  the arguments of one call: a collection with more tasks than a call takes arguments
  raises \<^verbatim>\<open>RangeError\<close> and no task is created.
\<close>

theorem addTask_order_counterexample:
  "addTask sampleEnv (js ''n'') (sampleData (js ''new''))
     (sampleState [sampleTask (js ''a'') (js ''high'') 9007199254740992 None None]) =
   Inr ((sampleTask (js ''n'') (js ''medium'') 9007199254740992 None None)\<lparr>title := js ''new''\<rparr>,
     sampleState [(sampleTask (js ''n'') (js ''medium'') 9007199254740992 None None)\<lparr>title := js ''new''\<rparr>,
                  sampleTask (js ''a'') (js ''high'') 9007199254740992 None None])
   \<and> getFilteredTasks sampleEnv
       (sampleState [(sampleTask (js ''n'') (js ''medium'') 9007199254740992 None None)\<lparr>title := js ''new''\<rparr>,
                  sampleTask (js ''a'') (js ''high'') 9007199254740992 None None]) =
     [(sampleTask (js ''n'') (js ''medium'') 9007199254740992 None None)\<lparr>title := js ''new''\<rparr>,
      sampleTask (js ''a'') (js ''high'') 9007199254740992 None None]
   \<and> addTask sampleEnv (js ''n'') (sampleData (js ''new''))
     (sampleState (replicate 200000 (sampleTask (js ''a'') (js ''high'') 1 None None))) =
     Inl RangeError"
proof -
  have r: "roundToDouble (9007199254740992 + 1) = 9007199254740992" by code_simp
  have a: "addTask sampleEnv (js ''n'') (sampleData (js ''new''))
     (sampleState [sampleTask (js ''a'') (js ''high'') 9007199254740992 None None]) =
   Inr ((sampleTask (js ''n'') (js ''medium'') 9007199254740992 None None)\<lparr>title := js ''new''\<rparr>,
     sampleState [(sampleTask (js ''n'') (js ''medium'') 9007199254740992 None None)\<lparr>title := js ''new''\<rparr>,
                  sampleTask (js ''a'') (js ''high'') 9007199254740992 None None])"
    using r by (simp add: addTask_def nextOrder_def sampleState_def sampleTask_def
        sampleData_def createTask_def sampleEnv_def str_or_def js_def Let_def)
  have b: "getFilteredTasks sampleEnv
       (sampleState [(sampleTask (js ''n'') (js ''medium'') 9007199254740992 None None)\<lparr>title := js ''new''\<rparr>,
                  sampleTask (js ''a'') (js ''high'') 9007199254740992 None None]) =
     [(sampleTask (js ''n'') (js ''medium'') 9007199254740992 None None)\<lparr>title := js ''new''\<rparr>,
      sampleTask (js ''a'') (js ''high'') 9007199254740992 None None]"
    by (simp add: sampleState_def sampleTask_def createTask_def sampleEnv_def str_or_def
        js_def getFilteredTasks_def viewFilter_def tagFilter_def priorityFilter_def
        dueFilter_def searchFilter_def js_sort_def compareTasks_def Let_def)
  have c: "addTask sampleEnv (js ''n'') (sampleData (js ''new''))
     (sampleState (replicate 200000 (sampleTask (js ''a'') (js ''high'') 1 None None))) =
     Inl RangeError"
    by (simp add: addTask_def nextOrder_def sampleState_def sampleEnv_def
        )
  show ?thesis by (rule conjI [OF a conjI [OF b c]])
qed



text \<open>
  C10, amended. In a collection that has no more tasks than a call takes arguments, and
  whose orders are of magnitude below \<open>2 ^ 53\<close>, creating a task succeeds: the new task
  gets the greatest order of the existing tasks plus one, or 0 in an empty collection,
  and is stored at the front. Its order is above every existing one, so under the
  \<^verbatim>\<open>custom\<close> sort the result of the query is the former result followed by the new
  task, when the new task passes the filters, and the former result otherwise.
\<close>

theorem addTask_order_after_all:
  assumes "length (tasks s) \<le> maxArguments e"
    and "\<forall>u \<in> set (tasks s). \<bar>order u\<bar> < 2 ^ 53"
  shows "\<exists>t s'. addTask e fresh d s = Inr (t, s')
         \<and> order t = (if tasks s = [] then 0 else Max (order ` set (tasks s)) + 1)
         \<and> tasks s' = t # tasks s
         \<and> (\<forall>u \<in> set (tasks s). order u < order t)
         \<and> (sortBy s = js ''custom'' \<longrightarrow>
              getFilteredTasks e s' =
                (if t \<in> set (getFilteredTasks e s') then getFilteredTasks e s @ [t]
                 else getFilteredTasks e s))"
proof -
  define k where "k = (if tasks s = [] then 0 else Max (order ` set (tasks s)) + 1)"
  define t where "t = createTask e fresh (d\<lparr>d_order := Some k\<rparr>)"
  define s' where "s' = s\<lparr>tasks := t # tasks s, tf_tasks := t # tasks s\<rparr>"
  have n: "nextOrder e (tasks s) = Inr k"
    using nextOrder_safe [OF assms] by (simp add: k_def)
  have add: "addTask e fresh d s = Inr (t, s')"
    by (simp add: addTask_def n Let_def t_def s'_def)
  have ord: "order t = k" by (simp add: t_def createTask_order)
  have above: "\<forall>u \<in> set (tasks s). order u < order t"
  proof
    fix u assume u: "u \<in> set (tasks s)"
    then have "order u \<le> Max (order ` set (tasks s))" by simp
    moreover have "tasks s \<noteq> []" using u by auto
    ultimately show "order u < order t" by (simp add: ord k_def)
  qed
  have "getFilteredTasks e s' =
                (if t \<in> set (getFilteredTasks e s') then getFilteredTasks e s @ [t]
                 else getFilteredTasks e s)" if c: "sortBy s = js ''custom''"
  proof -
    obtain P where P: "\<And>ts. searchFilter e (searchQuery s) (dueFilter e (filterDue s)
        (priorityFilter (filterPriorities s) (tagFilter (filterTag s)
          (viewFilter e (currentView s) ts)))) = filter P ts"
      using pipeline_is_filter by blast
    let ?cmp = "compareTasks e (sortBy s)"
    have old: "getFilteredTasks e s = js_sort ?cmp (filter P (tasks s))"
      by (simp add: getFilteredTasks_def P)
    have new: "getFilteredTasks e s' = js_sort ?cmp (filter P (t # tasks s))"
      by (simp add: getFilteredTasks_def P s'_def)
    have cmp: "\<And>b. b \<in> set (tasks s) \<Longrightarrow> 0 < ?cmp t b"
      using above c by (simp add: compareTasks_def js_def)
    have notin: "t \<notin> set (tasks s)" using above by auto
    show ?thesis
    proof (cases "P t")
      case True
      have "insertBy ?cmp t (js_sort ?cmp (filter P (tasks s))) =
            js_sort ?cmp (filter P (tasks s)) @ [t]"
        by (rule insertBy_last) (simp add: set_js_sort cmp)
      then show ?thesis using True by (simp add: old new js_sort_Cons set_js_sort)
    next
      case False
      then show ?thesis using notin by (simp add: old new set_js_sort)
    qed
  qed
  then have "addTask e fresh d s = Inr (t, s')
         \<and> order t = (if tasks s = [] then 0 else Max (order ` set (tasks s)) + 1)
         \<and> tasks s' = t # tasks s
         \<and> (\<forall>u \<in> set (tasks s). order u < order t)
         \<and> (sortBy s = js ''custom'' \<longrightarrow>
              getFilteredTasks e s' =
                (if t \<in> set (getFilteredTasks e s') then getFilteredTasks e s @ [t]
                 else getFilteredTasks e s))"
    using add ord above by (simp add: k_def s'_def)
  then show ?thesis by blast
qed


theorem addTask_order_after_all_witness:
  "length [sampleTask (js ''a'') (js ''high'') 7 None None,
           sampleTask (js ''b'') (js ''low'') 4 None None] \<le> maxArguments sampleEnv
   \<and> \<bar>order (sampleTask (js ''a'') (js ''high'') 7 None None)\<bar> < 2 ^ 53
   \<and> \<bar>order (sampleTask (js ''b'') (js ''low'') 4 None None)\<bar> < 2 ^ 53
   \<and> addTask sampleEnv (js ''n'') (sampleData (js ''new''))
        (sampleState [sampleTask (js ''a'') (js ''high'') 7 None None,
                      sampleTask (js ''b'') (js ''low'') 4 None None]) =
      Inr ((sampleTask (js ''n'') (js ''medium'') 8 None None)\<lparr>title := js ''new''\<rparr>,
           sampleState [(sampleTask (js ''n'') (js ''medium'') 8 None None)\<lparr>title := js ''new''\<rparr>,
                        sampleTask (js ''a'') (js ''high'') 7 None None,
                        sampleTask (js ''b'') (js ''low'') 4 None None])
   \<and> getFilteredTasks sampleEnv
        (sampleState [(sampleTask (js ''n'') (js ''medium'') 8 None None)\<lparr>title := js ''new''\<rparr>,
                        sampleTask (js ''a'') (js ''high'') 7 None None,
                        sampleTask (js ''b'') (js ''low'') 4 None None])
     = [sampleTask (js ''b'') (js ''low'') 4 None None,
        sampleTask (js ''a'') (js ''high'') 7 None None,
        (sampleTask (js ''n'') (js ''medium'') 8 None None)\<lparr>title := js ''new''\<rparr>]"
proof -
  have r: "roundToDouble (7 + 1) = 8" by code_simp
  from addTask_order_after_all [of
      "sampleState [sampleTask (js ''a'') (js ''high'') 7 None None,
                    sampleTask (js ''b'') (js ''low'') 4 None None]"
      sampleEnv "js ''n''" "sampleData (js ''new'')"] r
  show ?thesis
    by (simp add: addTask_def nextOrder_def sampleState_def sampleTask_def sampleData_def
      createTask_def sampleEnv_def str_or_def js_def getFilteredTasks_def viewFilter_def
      tagFilter_def priorityFilter_def dueFilter_def searchFilter_def js_sort_def
      compareTasks_def Let_def)
qed

section \<open>Properties of a pass of a regular expression\<close>

lemma no_match_substitute:
  "matches (scan m p s) = [] \<Longrightarrow> substitute f (scan m p s) = s"
  by (induction m p s rule: scan.induct) (auto split: option.splits if_splits)

lemma no_match_replaceAll: "\<not> test m s \<Longrightarrow> replaceAll m rep s = s"
  by (simp add: test_def replaceAll_def no_match_substitute)


subsection \<open>White space\<close>

lemma reSpaces_iff:
  "reSpaces p s \<noteq> None \<longleftrightarrow> (\<exists>a b v. s = a # b # v \<and> isSpace a \<and> isSpace b)"
proof (cases s)
  case Nil
  then show ?thesis by (simp add: reSpaces_def)
next
  case (Cons a s')
  then show ?thesis by (cases s') (auto simp: reSpaces_def)
qed

lemma reSpaces_Some:
  "reSpaces p s = Some (n, u) \<Longrightarrow> n = length (takeWhile isSpace s) \<and> 2 \<le> n"
  by (auto simp: reSpaces_def split: if_splits)

lemma test_spaces_gen:
  "matches (scan reSpaces p s) \<noteq> [] \<longleftrightarrow>
   (\<exists>u a b v. s = u @ a # b # v \<and> isSpace a \<and> isSpace b)"
proof (induction reSpaces p s rule: scan.induct)
  case (1 prev)
  then show ?case by (simp add: reSpaces_def)
next
  case (2 prev c cs)
  show ?case
  proof (cases "reSpaces prev (c # cs)")
    case None
    then have no: "\<not> (\<exists>a b v. c # cs = a # b # v \<and> isSpace a \<and> isSpace b)"
      using reSpaces_iff [of prev "c # cs"] by simp
    have "matches (scan reSpaces prev (c # cs)) \<noteq> [] \<longleftrightarrow>
          matches (scan reSpaces (Some c) cs) \<noteq> []"
      using None by simp
    also have "\<dots> \<longleftrightarrow> (\<exists>u a b v. cs = u @ a # b # v \<and> isSpace a \<and> isSpace b)"
      using 2(1) [OF None] .
    also have "\<dots> \<longleftrightarrow> (\<exists>u a b v. c # cs = u @ a # b # v \<and> isSpace a \<and> isSpace b)"
    proof
      assume "\<exists>u a b v. cs = u @ a # b # v \<and> isSpace a \<and> isSpace b"
      then obtain u a b v where "cs = u @ a # b # v" "isSpace a" "isSpace b" by blast
      then have "c # cs = (c # u) @ a # b # v \<and> isSpace a \<and> isSpace b" by simp
      then show "\<exists>u a b v. c # cs = u @ a # b # v \<and> isSpace a \<and> isSpace b" by blast
    next
      assume "\<exists>u a b v. c # cs = u @ a # b # v \<and> isSpace a \<and> isSpace b"
      then obtain u a b v where e: "c # cs = u @ a # b # v" "isSpace a" "isSpace b" by blast
      with no have "u \<noteq> []" by auto
      then obtain u' where "u = c # u'" "cs = u' @ a # b # v"
        using e(1) by (cases u) auto
      with e show "\<exists>u a b v. cs = u @ a # b # v \<and> isSpace a \<and> isSpace b" by blast
    qed
    finally show ?thesis .
  next
    case (Some x)
    obtain n u where x: "x = (n, u)" by (cases x)
    have "2 \<le> n" using Some x reSpaces_Some by blast
    then have "matches (scan reSpaces prev (c # cs)) \<noteq> []" using Some x by simp
    moreover have "\<exists>a b v. c # cs = a # b # v \<and> isSpace a \<and> isSpace b"
      using reSpaces_iff [of prev "c # cs"] Some by simp
    then have "\<exists>u a b v. c # cs = u @ a # b # v \<and> isSpace a \<and> isSpace b"
      by (metis append_Nil)
    ultimately show ?thesis by blast
  qed
qed

lemma test_spaces:
  "test reSpaces s \<longleftrightarrow> (\<exists>u a b v. s = u @ a # b # v \<and> isSpace a \<and> isSpace b)"
  by (simp add: test_def test_spaces_gen)

text \<open>Collapsing leaves no two neighbouring white space code units; the result begins
  with white space exactly when the string does.\<close>

lemma collapse_head:
  "(substitute (\<lambda>w cap. [0x20]) (scan reSpaces p s) = [] \<longleftrightarrow> s = [])
   \<and> (s \<noteq> [] \<longrightarrow> isSpace (hd (substitute (\<lambda>w cap. [0x20]) (scan reSpaces p s))) = isSpace (hd s))"
proof (cases s)
  case Nil
  then show ?thesis by (simp add: reSpaces_def)
next
  case (Cons c cs)
  show ?thesis
  proof (cases "reSpaces p (c # cs)")
    case None
    then show ?thesis using Cons by simp
  next
    case (Some x)
    obtain n u where x: "x = (n, u)" by (cases x)
    have n: "2 \<le> n" using Some x reSpaces_Some by blast
    have "isSpace c" using reSpaces_iff [of p "c # cs"] Some by auto
    moreover have "isSpace 0x20" by (simp add: isSpace_def)
    ultimately show ?thesis using Cons Some x n by simp
  qed
qed

lemma collapse_no_spaces_gen:
  "\<not> (\<exists>u a b v. substitute (\<lambda>w cap. [0x20]) (scan reSpaces p s) = u @ a # b # v
          \<and> isSpace a \<and> isSpace b)"
proof (induction reSpaces p s rule: scan.induct)
  case (1 prev)
  then show ?case by (simp add: reSpaces_def)
next
  case (2 prev c cs)
  let ?out = "\<lambda>p s. substitute (\<lambda>w cap. [0x20]) (scan reSpaces p s)"
  show ?case
  proof (cases "reSpaces prev (c # cs)")
    case None
    then have no: "\<not> (\<exists>a b v. c # cs = a # b # v \<and> isSpace a \<and> isSpace b)"
      using reSpaces_iff [of prev "c # cs"] by simp
    have out: "?out prev (c # cs) = c # ?out (Some c) cs" using None by simp
    have IH: "\<not> (\<exists>u a b v. ?out (Some c) cs = u @ a # b # v \<and> isSpace a \<and> isSpace b)"
      using 2(1) [OF None] .
    show ?thesis
    proof
      assume "\<exists>u a b v. ?out prev (c # cs) = u @ a # b # v \<and> isSpace a \<and> isSpace b"
      then obtain u a b v where e: "c # ?out (Some c) cs = u @ a # b # v" "isSpace a" "isSpace b"
        using out by auto
      show False
      proof (cases u)
        case Nil
        then have ca: "c = a" and o: "?out (Some c) cs = b # v" using e(1) by auto
        then have "cs \<noteq> []" using collapse_head [of "Some c" cs] by auto
        moreover from this have "isSpace (hd cs)"
          using collapse_head [of "Some c" cs] o e(3) by auto
        ultimately show False using no ca e(2) by (cases cs) auto
      next
        case (Cons c' u')
        then have "?out (Some c) cs = u' @ a # b # v" using e(1) by auto
        then show False using IH e by blast
      qed
    qed
  next
    case (Some x)
    obtain n u where x: "x = (n, u)" by (cases x)
    have n: "n = length (takeWhile isSpace (c # cs))" "2 \<le> n"
      using Some x reSpaces_Some by blast+
    let ?rest = "drop n (c # cs)"
    let ?pv = "nextChar (rev (take n (c # cs)))"
    have rest: "?rest = dropWhile isSpace (c # cs)"
      using n(1) by (simp add: dropWhile_eq_drop)
    have out: "?out prev (c # cs) = 0x20 # ?out ?pv ?rest" using Some x n(2) by simp
    have IH: "\<not> (\<exists>u a b v. ?out ?pv ?rest = u @ a # b # v \<and> isSpace a \<and> isSpace b)"
      using 2(3) [of x n u] Some x n(2) by simp
    have hd: "?rest \<noteq> [] \<Longrightarrow> \<not> isSpace (hd ?rest)"
      unfolding rest by (rule hd_dropWhile)
    show ?thesis
    proof
      assume "\<exists>u a b v. ?out prev (c # cs) = u @ a # b # v \<and> isSpace a \<and> isSpace b"
      then obtain u' a b v where e: "0x20 # ?out ?pv ?rest = u' @ a # b # v" "isSpace a" "isSpace b"
        using out by auto
      show False
      proof (cases u')
        case Nil
        then have o: "?out ?pv ?rest = b # v" using e(1) by auto
        then have ne: "?rest \<noteq> []" using collapse_head [of ?pv ?rest] by auto
        then have "isSpace (hd ?rest)"
          using collapse_head [of ?pv ?rest] o e(3) by auto
        then show False using hd ne by blast
      next
        case (Cons c' u'')
        then have "?out ?pv ?rest = u'' @ a # b # v" using e(1) by auto
        then show False using IH e by blast
      qed
    qed
  qed
qed

lemma collapse_no_spaces: "\<not> test reSpaces (replaceAll reSpaces (js '' '') s)"
  using collapse_no_spaces_gen [of None s]
  by (simp add: test_spaces replaceAll_def js_def)

lemma trim_decompose: "\<exists>p q. s = p @ trim s @ q"
proof -
  have "s = takeWhile isSpace s @ dropWhile isSpace s" by simp
  moreover have "dropWhile isSpace s = trim s @ rev (takeWhile isSpace (rev (dropWhile isSpace s)))"
    unfolding trim_def
    by (metis rev_append rev_rev_ident takeWhile_dropWhile_id)
  ultimately show ?thesis by metis
qed

lemma trim_no_spaces: "\<not> test reSpaces s \<Longrightarrow> \<not> test reSpaces (trim s)"
proof
  assume a: "\<not> test reSpaces s" and b: "test reSpaces (trim s)"
  obtain p q where s: "s = p @ trim s @ q" using trim_decompose by blast
  obtain u x y v where t: "trim s = u @ x # y # v" "isSpace x" "isSpace y"
    using b test_spaces by blast
  have "s = (p @ u) @ x # y # (v @ q)" using s t(1) by simp
  then have "test reSpaces s" using t(2,3) test_spaces by blast
  then show False using a by simp
qed

lemma trim_fixed:
  "s = [] \<or> (\<not> isSpace (hd s) \<and> \<not> isSpace (last s)) \<Longrightarrow> trim s = s"
proof (cases s)
  case Nil
  then show ?thesis by (simp add: trim_def)
next
  case (Cons c cs)
  assume "s = [] \<or> (\<not> isSpace (hd s) \<and> \<not> isSpace (last s))"
  then have h: "\<not> isSpace (hd s)" "\<not> isSpace (last s)" using Cons by auto
  have 1: "dropWhile isSpace s = s" using h(1) by (simp add: dropWhile_eq_self_iff)
  have "hd (rev s) = last s" using Cons by (simp add: hd_rev)
  then have 2: "dropWhile isSpace (rev s) = rev s" using h(2) by (simp add: dropWhile_eq_self_iff)
  show ?thesis by (simp add: trim_def 1 2)
qed

lemma trim_ends: "trim s = [] \<or> (\<not> isSpace (hd (trim s)) \<and> \<not> isSpace (last (trim s)))"
proof (cases "trim s = []")
  case True
  then show ?thesis by simp
next
  case False
  let ?a = "dropWhile isSpace s"
  let ?b = "dropWhile isSpace (rev ?a)"
  have b: "?b \<noteq> []" using False by (simp add: trim_def)
  then have lastb: "\<not> isSpace (hd ?b)" by (rule hd_dropWhile)
  have a: "?a \<noteq> []"
  proof
    assume "?a = []"
    then have "?b = []" by (simp only: rev.simps dropWhile.simps)
    with b show False by blast
  qed
  then have hda: "\<not> isSpace (hd ?a)" by (rule hd_dropWhile)
  have "last (trim s) = hd ?b" using b by (simp add: trim_def last_rev)
  moreover have "hd (trim s) = hd ?a"
  proof -
    obtain pre where "rev ?a = pre @ ?b" by (metis takeWhile_dropWhile_id)
    then have "?a = rev ?b @ rev pre" by (metis rev_append rev_rev_ident)
    then have "hd ?a = hd (rev ?b)" using b by (metis hd_append rev_is_Nil_conv)
    then show ?thesis by (simp add: trim_def)
  qed
  ultimately show ?thesis using lastb hda by simp
qed

lemma trim_trim: "trim (trim s) = trim s"
  using trim_ends [of s] by (rule trim_fixed)

text \<open>The last step of the parser, applied to its own result, changes nothing.\<close>

lemma title_fixed:
  "trim (replaceAll reSpaces (js '' '') (trim (replaceAll reSpaces (js '' '') s))) =
   trim (replaceAll reSpaces (js '' '') s)"
proof -
  have "\<not> test reSpaces (trim (replaceAll reSpaces (js '' '') s))"
    using collapse_no_spaces trim_no_spaces by blast
  then have "replaceAll reSpaces (js '' '') (trim (replaceAll reSpaces (js '' '') s)) =
             trim (replaceAll reSpaces (js '' '') s)"
    by (rule no_match_replaceAll)
  then show ?thesis by (simp add: trim_trim)
qed

section \<open>Properties of the parser\<close>

subsection \<open>Text without hints\<close>

lemma priorityStage_plain:
  "\<not> test reHigh t \<Longrightarrow> \<not> test reMed t \<Longrightarrow> \<not> test reLow t \<Longrightarrow>
   priorityStage t = (js ''medium'', t)"
  by (simp add: priorityStage_def no_match_replaceAll)

lemma tagStage_plain: "\<not> test reTag t \<Longrightarrow> tagStage t = ([], t)"
  by (simp add: tagStage_def no_match_replaceAll) (simp add: test_def)

lemma dateStage_plain:
  "\<not> test reToday t \<Longrightarrow> \<not> test reTomorrow t \<Longrightarrow> \<not> test reNextWeek t \<Longrightarrow>
   dateStage c t = (None, t)"
  by (simp add: dateStage_def)

lemma timeStage_None: "timeStage c None t = (None, t)"
  by (simp add: timeStage_def split: option.splits)

lemma parseNLP_plain:
  assumes "\<not> test reHigh text" and "\<not> test reMed text" and "\<not> test reLow text"
    and "\<not> test reTag text"
    and "\<not> test reToday text" and "\<not> test reTomorrow text" and "\<not> test reNextWeek text"
  shows "parseNLP c text =
           \<lparr> p_title = trim (replaceAll reSpaces (js '' '') text), p_dueAt = None,
             p_priority = js ''medium'', p_tags = [] \<rparr>"
  using assms
  by (simp add: parseNLP_def priorityStage_plain tagStage_plain dateStage_plain timeStage_None)

lemma p_title_parseNLP:
  "\<exists>t. p_title (parseNLP c text) = trim (replaceAll reSpaces (js '' '') t)"
  by (auto simp: parseNLP_def Let_def split: prod.splits)

text \<open>
  C2, as stated, fails: the title is not the input untouched, for the last step of the
  parser trims the text and collapses its runs of white space. The input \<^verbatim>\<open>" a"\<close> has
  no marker, tag, date keyword or time phrase, and its title is \<^verbatim>\<open>"a"\<close>.
\<close>

theorem plain_text_counterexample:
  "\<not> test reHigh (js '' a'') \<and> \<not> test reMed (js '' a'') \<and> \<not> test reLow (js '' a'')
   \<and> \<not> test reTag (js '' a'') \<and> \<not> test reToday (js '' a'')
   \<and> \<not> test reTomorrow (js '' a'') \<and> \<not> test reNextWeek (js '' a'')
   \<and> \<not> test reTime (js '' a'')
   \<and> p_title (parseNLP sampleClock (js '' a'')) = js ''a''
   \<and> p_title (parseNLP sampleClock (js '' a'')) \<noteq> js '' a''"
  by code_simp

text \<open>
  C2, amended. For a text without priority marker, tag and relative date keyword, with or
  without a time phrase, the parser returns the text, trimmed and with every run of two
  or more white space characters collapsed to one space, as the title, with priority
  \<^verbatim>\<open>medium\<close>, no tags and no due date. The title is the text itself when the text has
  no such run and neither begins nor ends with white space.
\<close>

theorem plain_text_parse:
  assumes "\<not> test reHigh text" and "\<not> test reMed text" and "\<not> test reLow text"
    and "\<not> test reTag text"
    and "\<not> test reToday text" and "\<not> test reTomorrow text" and "\<not> test reNextWeek text"
  shows "parseNLP c text =
           \<lparr> p_title = trim (replaceAll reSpaces (js '' '') text), p_dueAt = None,
             p_priority = js ''medium'', p_tags = [] \<rparr>
         \<and> (\<not> test reSpaces text \<and> trim text = text \<longrightarrow>
              parseNLP c text =
                \<lparr> p_title = text, p_dueAt = None, p_priority = js ''medium'', p_tags = [] \<rparr>)"
proof -
  have 1: "parseNLP c text =
           \<lparr> p_title = trim (replaceAll reSpaces (js '' '') text), p_dueAt = None,
             p_priority = js ''medium'', p_tags = [] \<rparr>"
    by (rule parseNLP_plain [OF assms])
  have "trim (replaceAll reSpaces (js '' '') text) = text"
    if "\<not> test reSpaces text" and "trim text = text"
    using that by (simp add: no_match_replaceAll)
  with 1 show ?thesis by simp
qed

theorem plain_text_parse_witness:
  "\<not> test reHigh (js ''Buy milk 9am'') \<and> \<not> test reMed (js ''Buy milk 9am'')
   \<and> \<not> test reLow (js ''Buy milk 9am'') \<and> \<not> test reTag (js ''Buy milk 9am'')
   \<and> \<not> test reToday (js ''Buy milk 9am'') \<and> \<not> test reTomorrow (js ''Buy milk 9am'')
   \<and> \<not> test reNextWeek (js ''Buy milk 9am'')
   \<and> parseNLP sampleClock (js ''Buy milk 9am'') =
       \<lparr> p_title = js ''Buy milk 9am'', p_dueAt = None, p_priority = js ''medium'',
         p_tags = [] \<rparr>"
proof -
  have h: "\<not> test reHigh (js ''Buy milk 9am'')" "\<not> test reMed (js ''Buy milk 9am'')"
    "\<not> test reLow (js ''Buy milk 9am'')" "\<not> test reTag (js ''Buy milk 9am'')"
    "\<not> test reToday (js ''Buy milk 9am'')" "\<not> test reTomorrow (js ''Buy milk 9am'')"
    "\<not> test reNextWeek (js ''Buy milk 9am'')"
    by code_simp+
  have w: "\<not> test reSpaces (js ''Buy milk 9am'')" "trim (js ''Buy milk 9am'') = js ''Buy milk 9am''"
    by code_simp+
  from plain_text_parse [OF h, of sampleClock] w
  have "parseNLP sampleClock (js ''Buy milk 9am'') =
       \<lparr> p_title = js ''Buy milk 9am'', p_dueAt = None, p_priority = js ''medium'',
         p_tags = [] \<rparr>"
    by blast
  with h show ?thesis by blast
qed

subsection \<open>Parsing a title again\<close>

text \<open>
  C6. The parser is a total function: none of its operations can fail, and its passes
  over the text terminate. When the title it returns holds no priority marker, tag or
  relative date keyword, parsing that title, at any time, returns the same title, with
  priority \<^verbatim>\<open>medium\<close>, no tags and no due date.
\<close>

theorem parse_title_idempotent:
  assumes "\<not> test reHigh (p_title (parseNLP c text))"
    and "\<not> test reMed (p_title (parseNLP c text))"
    and "\<not> test reLow (p_title (parseNLP c text))"
    and "\<not> test reTag (p_title (parseNLP c text))"
    and "\<not> test reToday (p_title (parseNLP c text))"
    and "\<not> test reTomorrow (p_title (parseNLP c text))"
    and "\<not> test reNextWeek (p_title (parseNLP c text))"
  shows "(\<exists>r. parseNLP c text = r)
         \<and> parseNLP c' (p_title (parseNLP c text)) =
             \<lparr> p_title = p_title (parseNLP c text), p_dueAt = None,
               p_priority = js ''medium'', p_tags = [] \<rparr>"
proof -
  obtain t where t: "p_title (parseNLP c text) = trim (replaceAll reSpaces (js '' '') t)"
    using p_title_parseNLP by blast
  have "parseNLP c' (p_title (parseNLP c text)) =
          \<lparr> p_title = trim (replaceAll reSpaces (js '' '') (p_title (parseNLP c text))),
            p_dueAt = None, p_priority = js ''medium'', p_tags = [] \<rparr>"
    by (rule parseNLP_plain [OF assms])
  then show ?thesis by (simp add: t title_fixed)
qed

theorem parse_title_idempotent_witness:
  "p_title (parseNLP sampleClock (js ''Call doctor today  3:30pm #health !high'')) = js ''Call doctor''
   \<and> parseNLP (sampleClock\<lparr>now := 86400000\<rparr>) (js ''Call doctor'') =
       \<lparr> p_title = js ''Call doctor'', p_dueAt = None, p_priority = js ''medium'',
         p_tags = [] \<rparr>"
proof -
  have t: "p_title (parseNLP sampleClock (js ''Call doctor today  3:30pm #health !high'')) = js ''Call doctor''"
    by code_simp
  have h: "\<not> test reHigh (js ''Call doctor'')" "\<not> test reMed (js ''Call doctor'')"
    "\<not> test reLow (js ''Call doctor'')" "\<not> test reTag (js ''Call doctor'')"
    "\<not> test reToday (js ''Call doctor'')" "\<not> test reTomorrow (js ''Call doctor'')"
    "\<not> test reNextWeek (js ''Call doctor'')"
    by code_simp+
  from parse_title_idempotent [of sampleClock "js ''Call doctor today  3:30pm #health !high''"
        "sampleClock\<lparr>now := 86400000\<rparr>", unfolded t, OF h]
  show ?thesis using t by blast
qed

subsection \<open>Literals\<close>

lemma startsWithCI_Cons:
  "startsWithCI (p # ps) s \<longleftrightarrow>
   (\<exists>c cs. s = c # cs \<and> canonicalize p = canonicalize c \<and> startsWithCI ps cs)"
  by (cases s) auto

text \<open>A regular expression that does not look behind has a match in a string exactly
  when it matches at the start of a suffix.\<close>

lemma test_suffix_gen:
  assumes "\<And>p s. (m p s \<noteq> None) = Q s"
  shows "matches (scan m p s) \<noteq> [] \<longleftrightarrow> (\<exists>u v. s = u @ v \<and> Q v)"
  using assms
proof (induction m p s rule: scan.induct)
  case (1 m prev)
  show ?case
  proof (cases "m prev []")
    case None
    then have "\<not> Q []" using "1.prems" [of prev "[]"] by simp
    then show ?thesis using None by simp
  next
    case (Some x)
    then have "matches (scan m prev []) \<noteq> []" by (cases x) simp
    moreover have "Q []" using "1.prems" [of prev "[]"] Some by simp
    ultimately show ?thesis by simp
  qed
next
  case (2 m prev c cs)
  note Q = "2.prems"
  show ?case
  proof (cases "m prev (c # cs)")
    case None
    then have no: "\<not> Q (c # cs)" using Q [of prev "c # cs"] by simp
    have "matches (scan m prev (c # cs)) \<noteq> [] \<longleftrightarrow> matches (scan m (Some c) cs) \<noteq> []"
      using None by simp
    also have "\<dots> \<longleftrightarrow> (\<exists>u v. cs = u @ v \<and> Q v)" using 2(1) [OF None Q] .
    also have "\<dots> \<longleftrightarrow> (\<exists>u v. c # cs = u @ v \<and> Q v)"
      using no by (auto simp: Cons_eq_append_conv)
    finally show ?thesis .
  next
    case (Some x)
    then have "matches (scan m prev (c # cs)) \<noteq> []" by (cases x) simp
    moreover have "Q (c # cs)" using Q [of prev "c # cs"] Some by simp
    then have "\<exists>u v. c # cs = u @ v \<and> Q v" by (metis append_Nil)
    ultimately show ?thesis by blast
  qed
qed

lemma test_suffix:
  assumes "\<And>p s. (m p s \<noteq> None) = Q s"
  shows "test m s \<longleftrightarrow> (\<exists>u v. s = u @ v \<and> Q v)"
  unfolding test_def using assms by (rule test_suffix_gen)

lemma test_reLow: "test reLow s \<longleftrightarrow> (\<exists>u v. s = u @ v \<and> startsWithCI (js ''!low'') v)"
  by (rule test_suffix) (simp add: reLow_def reLiteral_def)

lemma js_low: "js ''!low'' = 0x21 # js ''low''"
  by (simp add: js_def)

lemma canon_low: "\<forall>c \<in> set (js ''low''). canonicalize c \<noteq> 0x21"
  by (simp add: js_def canonicalize_def)

text \<open>
  Deleting the matches of a regular expression that matches only at an exclamation mark
  keeps a marker that no match overlaps.
\<close>

lemma marker_copied:
  assumes M: "\<And>p s n cap. m p s = Some (n, cap) \<Longrightarrow> \<exists>c cs. s = c # cs \<and> canonicalize c = 0x21"
    and L: "\<forall>c \<in> set l. canonicalize c \<noteq> 0x21"
  shows "startsWithCI l s \<Longrightarrow> startsWithCI l (substitute (\<lambda>w cap. []) (scan m p s))"
  using L
proof (induction l arbitrary: p s)
  case Nil
  then show ?case by simp
next
  case (Cons a l)
  from Cons.prems(1) obtain d ds where s: "s = d # ds" "canonicalize a = canonicalize d"
      "startsWithCI l ds"
    using startsWithCI_Cons by blast
  have "m p (d # ds) = None"
  proof (cases "m p (d # ds)")
    case (Some x)
    then have "canonicalize d = 0x21" using M [of p "d # ds" "fst x" "snd x"] by auto
    then show ?thesis using s(2) Cons.prems(2) by simp
  qed simp
  then have "substitute (\<lambda>w cap. []) (scan m p s) =
             d # substitute (\<lambda>w cap. []) (scan m (Some d) ds)"
    using s(1) by simp
  moreover have "startsWithCI l (substitute (\<lambda>w cap. []) (scan m (Some d) ds))"
    using Cons.IH [OF s(3)] Cons.prems(2) by simp
  ultimately show ?case using s(2) by simp
qed

lemma marker_survives:
  assumes M: "\<And>p s n cap. m p s = Some (n, cap) \<Longrightarrow>
                0 < n \<and> \<not> startsWithCI (0x21 # l) s
                \<and> (\<exists>c cs. s = c # cs \<and> canonicalize c = 0x21)
                \<and> (\<forall>k. 0 < k \<and> k < n \<longrightarrow> k < length s \<and> canonicalize (s ! k) \<noteq> 0x21)"
    and L: "\<forall>c \<in> set l. canonicalize c \<noteq> 0x21"
  shows "\<exists>u v. s = u @ v \<and> startsWithCI (0x21 # l) v \<Longrightarrow>
         \<exists>u v. substitute (\<lambda>w cap. []) (scan m p s) = u @ v \<and> startsWithCI (0x21 # l) v"
proof (induction "length s" arbitrary: p s rule: less_induct)
  case less
  from less.prems obtain u v where uv: "s = u @ v" "startsWithCI (0x21 # l) v" by blast
  obtain y v' where v: "v = y # v'" "canonicalize 0x21 = canonicalize y" "startsWithCI l v'"
    using uv(2) startsWithCI_Cons [of "0x21" l v] by blast
  have y: "canonicalize y = 0x21" using v(2) by (simp add: canonicalize_def)
  have "s \<noteq> []" using uv(1) v(1) by simp
  then obtain c cs where s: "s = c # cs" by (cases s) blast+
  let ?out = "\<lambda>p s. substitute (\<lambda>w cap. []) (scan m p s)"
  have M1: "\<And>p s n cap. m p s = Some (n, cap) \<Longrightarrow> \<exists>c cs. s = c # cs \<and> canonicalize c = 0x21"
    using M by blast
  show ?case
  proof (cases "m p (c # cs)")
    case None
    have out: "?out p s = c # ?out (Some c) cs" using None s by simp
    show ?thesis
    proof (cases u)
      case Nil
      then have c: "c = y" "cs = v'" using uv(1) v(1) s by simp_all
      have "startsWithCI l (?out (Some c) cs)"
      proof (rule marker_copied [OF _ L])
        show "\<And>p s n cap. m p s = Some (n, cap) \<Longrightarrow> \<exists>c cs. s = c # cs \<and> canonicalize c = 0x21"
          by (rule M1)
        show "startsWithCI l cs" using c(2) v(3) by simp
      qed
      then have "startsWithCI (0x21 # l) (c # ?out (Some c) cs)" using c(1) v(2) by simp
      then have "?out p s = [] @ (c # ?out (Some c) cs) \<and> startsWithCI (0x21 # l) (c # ?out (Some c) cs)"
        using out by simp
      then show ?thesis by blast
    next
      case (Cons c' u')
      then have "cs = u' @ v" using uv(1) s by simp
      then have "\<exists>u v. cs = u @ v \<and> startsWithCI (0x21 # l) v" using uv(2) by blast
      moreover have "length cs < length s" using s by simp
      ultimately obtain u1 v1 where o: "?out (Some c) cs = u1 @ v1" "startsWithCI (0x21 # l) v1"
        using less.hyps [of cs "Some c"] by blast
      have "?out p s = (c # u1) @ v1" using out o(1) by simp
      then show ?thesis using o(2) by blast
    qed
  next
    case (Some x)
    obtain n cap where x: "x = (n, cap)" by (cases x)
    have mx: "m p s = Some (n, cap)" using Some x s by simp
    have n0: "0 < n" using M [OF mx] by blast
    have ns: "\<not> startsWithCI (0x21 # l) s" using M [OF mx] by blast
    have nk: "\<And>k. 0 < k \<Longrightarrow> k < n \<Longrightarrow> canonicalize (s ! k) \<noteq> 0x21" using M [OF mx] by blast
    have out: "?out p s = ?out (nextChar (rev (take n s))) (drop n s)"
      using mx s n0 by simp
    have "n \<le> length u"
    proof (rule ccontr)
      assume "\<not> n \<le> length u"
      then have lt: "length u < n" by simp
      show False
      proof (cases "u = []")
        case True
        then show False using uv ns by simp
      next
        case False
        then have "0 < length u" by simp
        moreover have "s ! length u = y" using uv(1) v(1) by (metis nth_append_length)
        ultimately show False using nk [of "length u"] lt y by simp
      qed
    qed
    then have "drop n s = drop n u @ v" using uv(1) by simp
    then have "\<exists>u v. drop n s = u @ v \<and> startsWithCI (0x21 # l) v" using uv(2) by blast
    moreover have "length (drop n s) < length s" using n0 s by simp
    ultimately obtain u1 v1 where
      "?out (nextChar (rev (take n s))) (drop n s) = u1 @ v1" "startsWithCI (0x21 # l) v1"
      using less.hyps [of "drop n s" "nextChar (rev (take n s))"] by blast
    then show ?thesis unfolding out by blast
  qed
qed

lemma reHigh_match:
  assumes "reHigh p s = Some (n, cap)"
  shows "0 < n \<and> \<not> startsWithCI (0x21 # js ''low'') s
         \<and> (\<exists>c cs. s = c # cs \<and> canonicalize c = 0x21)
         \<and> (\<forall>k. 0 < k \<and> k < n \<longrightarrow> k < length s \<and> canonicalize (s ! k) \<noteq> 0x21)"
proof -
  have n: "n = 5" and st: "startsWithCI (js ''!high'') s"
    using assms by (auto simp: reHigh_def reLiteral_def js_def split: if_splits)
  from st obtain c0 c1 c2 c3 c4 r where s: "s = c0 # c1 # c2 # c3 # c4 # r"
    and c: "canonicalize c0 = 0x21" "canonicalize c1 = 0x48" "canonicalize c2 = 0x49"
      "canonicalize c3 = 0x47" "canonicalize c4 = 0x48"
    by (auto simp: js_def startsWithCI_Cons canonicalize_def [of "0x21"] canonicalize_def [of "0x68"]
        canonicalize_def [of "0x69"] canonicalize_def [of "0x67"])
  have "\<not> startsWithCI (0x21 # js ''low'') s"
    using s c by (simp add: js_def canonicalize_def [of "0x6C"])
  moreover have "\<forall>k. 0 < k \<and> k < n \<longrightarrow> k < length s \<and> canonicalize (s ! k) \<noteq> 0x21"
  proof (intro allI impI)
    fix k assume "0 < k \<and> k < n"
    then have "k = 1 \<or> k = 2 \<or> k = 3 \<or> k = 4" using n by auto
    then show "k < length s \<and> canonicalize (s ! k) \<noteq> 0x21" using s c by auto
  qed
  ultimately show ?thesis using n s c by simp
qed

lemma reMed_match:
  assumes "reMed p s = Some (n, cap)"
  shows "0 < n \<and> \<not> startsWithCI (0x21 # js ''low'') s
         \<and> (\<exists>c cs. s = c # cs \<and> canonicalize c = 0x21)
         \<and> (\<forall>k. 0 < k \<and> k < n \<longrightarrow> k < length s \<and> canonicalize (s ! k) \<noteq> 0x21)"
proof -
  have st: "startsWithCI (js ''!med'') s"
    and n: "n = 4 \<or> (n = 7 \<and> startsWithCI (js ''ium'') (drop 4 s))"
    using assms by (auto simp: reMed_def split: if_splits)
  from st obtain c0 c1 c2 c3 r where s: "s = c0 # c1 # c2 # c3 # r"
    and c: "canonicalize c0 = 0x21" "canonicalize c1 = 0x4D" "canonicalize c2 = 0x45"
      "canonicalize c3 = 0x44"
    by (auto simp: js_def startsWithCI_Cons canonicalize_def [of "0x21"] canonicalize_def [of "0x6D"]
        canonicalize_def [of "0x65"] canonicalize_def [of "0x64"])
  have low: "\<not> startsWithCI (0x21 # js ''low'') s"
    using s c by (simp add: js_def canonicalize_def [of "0x6C"])
  have k: "\<forall>k. 0 < k \<and> k < n \<longrightarrow> k < length s \<and> canonicalize (s ! k) \<noteq> 0x21"
  proof (cases "n = 4")
    case True
    show ?thesis
    proof (intro allI impI)
      fix k assume "0 < k \<and> k < n"
      then have "k = 1 \<or> k = 2 \<or> k = 3" using True by auto
      then show "k < length s \<and> canonicalize (s ! k) \<noteq> 0x21" using s c by auto
    qed
  next
    case False
    then have n7: "n = 7" and ium: "startsWithCI (js ''ium'') r" using n s by auto
    from ium obtain c4 c5 c6 r' where r: "r = c4 # c5 # c6 # r'"
      and c': "canonicalize c4 = 0x49" "canonicalize c5 = 0x55" "canonicalize c6 = 0x4D"
      by (auto simp: js_def startsWithCI_Cons canonicalize_def [of "0x69"] canonicalize_def [of "0x75"]
          canonicalize_def [of "0x6D"])
    show ?thesis
    proof (intro allI impI)
      fix k assume "0 < k \<and> k < n"
      then have "k = 1 \<or> k = 2 \<or> k = 3 \<or> k = 4 \<or> k = 5 \<or> k = 6" using n7 by auto
      then show "k < length s \<and> canonicalize (s ! k) \<noteq> 0x21" using s r c c' by auto
    qed
  qed
  show ?thesis using n low k s c by auto
qed

lemma low_survives_high: "test reLow s \<Longrightarrow> test reLow (replaceAll reHigh [] s)"
  unfolding test_reLow js_low replaceAll_def
  by (rule marker_survives [OF reHigh_match canon_low])

lemma low_survives_med: "test reLow s \<Longrightarrow> test reLow (replaceAll reMed [] s)"
  unfolding test_reLow js_low replaceAll_def
  by (rule marker_survives [OF reMed_match canon_low])

subsection \<open>What a deletion leaves\<close>

lemma subseq_deleted: "subseq (substitute (\<lambda>w cap. []) (scan m p s)) s"
proof (induction m p s rule: scan.induct)
  case (1 m prev)
  then show ?case by (simp split: option.splits)
next
  case (2 m prev c cs)
  show ?case
  proof (cases "m prev (c # cs)")
    case None
    then show ?thesis using 2(1) by simp
  next
    case (Some x)
    obtain n cap where x: "x = (n, cap)" by (cases x)
    show ?thesis
    proof (cases "n = 0")
      case True
      then show ?thesis using Some x 2(2) by simp
    next
      case False
      have "subseq (substitute (\<lambda>w cap. []) (scan m (nextChar (rev (take n (c # cs))))
              (drop n (c # cs)))) (drop n (c # cs))"
        using 2(3) [OF Some x [symmetric] False] .
      moreover have "subseq (drop n (c # cs)) (c # cs)"
        by (metis append_take_drop_id list_emb_append2 subseq_order.order_refl)
      ultimately have "subseq (substitute (\<lambda>w cap. []) (scan m (nextChar (rev (take n (c # cs))))
              (drop n (c # cs)))) (c # cs)"
        by (rule subseq_order.order_trans)
      then show ?thesis using Some x False by simp
    qed
  qed
qed

lemma subseq_replaceAll: "subseq (replaceAll m [] s) s"
  by (simp add: replaceAll_def subseq_deleted)

lemma subseq_removeFirst: "subseq (removeFirst w s) s"
proof (induction s)
  case Nil
  then show ?case by simp
next
  case (Cons c cs)
  have "subseq (drop (length w) (c # cs)) (c # cs)"
    by (metis append_take_drop_id list_emb_append2 subseq_order.order_refl)
  then show ?case using Cons by simp
qed

lemma subseq_dateStage: "subseq (snd (dateStage c t)) t"
  by (simp add: dateStage_def subseq_replaceAll)

lemma subseq_timeStage: "subseq (snd (timeStage c due t)) t"
  by (auto simp: timeStage_def Let_def subseq_removeFirst split: option.splits prod.splits)

lemma subseq_tagStage: "subseq (snd (tagStage t)) t"
  by (simp add: tagStage_def subseq_replaceAll)

lemma p_priority_parseNLP: "p_priority (parseNLP c text) = fst (priorityStage text)"
  by (simp add: parseNLP_def Let_def split_def)

lemma title_from_stripped:
  "\<exists>t. p_title (parseNLP c text) = trim (replaceAll reSpaces (js '' '') t)
       \<and> subseq t (snd (priorityStage text))"
proof -
  let ?t3 = "snd (priorityStage text)"
  let ?t4 = "snd (tagStage ?t3)"
  let ?t5 = "snd (dateStage c ?t4)"
  let ?t6 = "snd (timeStage c (fst (dateStage c ?t4)) ?t5)"
  have "subseq ?t6 ?t5" by (rule subseq_timeStage)
  also have "subseq ?t5 ?t4" by (rule subseq_dateStage)
  also have "subseq ?t4 ?t3" by (rule subseq_tagStage)
  finally have "subseq ?t6 ?t3" .
  moreover have "p_title (parseNLP c text) = trim (replaceAll reSpaces (js '' '') ?t6)"
    by (simp add: parseNLP_def Let_def split_def)
  ultimately show ?thesis by blast
qed

subsection \<open>Priority markers\<close>

lemma priorityStage_snd:
  "snd (priorityStage text) = replaceAll reLow [] (replaceAll reMed [] (replaceAll reHigh [] text))"
  by (simp add: priorityStage_def Let_def)

lemma priorityStage_fst:
  "fst (priorityStage text) =
     (if test reLow (replaceAll reMed [] (replaceAll reHigh [] text)) then js ''low''
      else if test reMed (replaceAll reHigh [] text) then js ''medium''
      else if test reHigh text then js ''high''
      else js ''medium'')"
  by (simp add: priorityStage_def Let_def)

text \<open>
  C3. The priority is decided by the three replacements in their order: \<^verbatim>\<open>low\<close> when the
  text left by the first two holds \<^verbatim>\<open>!low\<close>, else \<^verbatim>\<open>medium\<close> when the text left by the
  first holds \<^verbatim>\<open>!med\<close>, else \<^verbatim>\<open>high\<close> when the text holds \<^verbatim>\<open>!high\<close>, else the default.
  A text with both \<^verbatim>\<open>!high\<close> and \<^verbatim>\<open>!low\<close>, in any case of letters, gets \<^verbatim>\<open>low\<close>. The
  title is made, by trimming and collapsing white space, from code units of the text
  from which the matches of the three replacements are deleted.
\<close>

theorem priority_last_match_wins:
  "p_priority (parseNLP c text) =
     (if test reLow (replaceAll reMed [] (replaceAll reHigh [] text)) then js ''low''
      else if test reMed (replaceAll reHigh [] text) then js ''medium''
      else if test reHigh text then js ''high''
      else js ''medium'')
   \<and> (test reHigh text \<and> test reLow text \<longrightarrow> p_priority (parseNLP c text) = js ''low'')
   \<and> (\<exists>t. p_title (parseNLP c text) = trim (replaceAll reSpaces (js '' '') t)
          \<and> subseq t (replaceAll reLow [] (replaceAll reMed [] (replaceAll reHigh [] text))))"
proof -
  have p: "p_priority (parseNLP c text) = fst (priorityStage text)"
    by (rule p_priority_parseNLP)
  have "test reLow (replaceAll reMed [] (replaceAll reHigh [] text))" if "test reLow text"
    using that low_survives_high low_survives_med by blast
  then have "test reLow text \<longrightarrow> p_priority (parseNLP c text) = js ''low''"
    by (simp add: p priorityStage_fst)
  then show ?thesis
    using title_from_stripped [of c "text"] by (simp add: p priorityStage_fst priorityStage_snd)
qed

theorem priority_last_match_wins_witness:
  "test reHigh (js ''Pay rent !low !HIGH'') \<and> test reLow (js ''Pay rent !low !HIGH'')
   \<and> p_priority (parseNLP sampleClock (js ''Pay rent !low !HIGH'')) = js ''low''
   \<and> p_title (parseNLP sampleClock (js ''Pay rent !low !HIGH'')) = js ''Pay rent''"
proof -
  have h: "test reHigh (js ''Pay rent !low !HIGH'')" "test reLow (js ''Pay rent !low !HIGH'')"
    by code_simp+
  have t: "p_title (parseNLP sampleClock (js ''Pay rent !low !HIGH'')) = js ''Pay rent''"
    by code_simp
  from priority_last_match_wins [of sampleClock "js ''Pay rent !low !HIGH''"] h
  have "p_priority (parseNLP sampleClock (js ''Pay rent !low !HIGH'')) = js ''low''"
    by blast
  with h t show ?thesis by blast
qed

subsection \<open>Keywords between word boundaries\<close>

















subsection \<open>Relative date keywords\<close>















subsection \<open>Time phrases\<close>




















end
